theory Spec2Isabelle
  imports Complex_Main "HOL-Library.Word" "HOL-Library.Signed_Division" "HOL-Library.Log_Nat"
begin

section \<open>Machine numbers\<close>

text \<open>
  Go's \<open>uint64\<close> is \<open>64 word\<close>; Go's \<open>int\<close> and \<open>int64\<close> (64-bit two's complement) are
  \<open>64 word\<close> read through \<open>sint\<close>, so that \<open>+\<close> and \<open>-\<close> wrap as the machine does.
\<close>

type_synonym uint64 = "64 word"
type_synonym go_int = "64 word"
type_synonym int64 = "64 word"

text \<open>
  \<open>float64\<close> is IEEE 754 binary64: the three special values and the finite values, each
  finite value the rational it denotes. An operation computes the exact result and
  rounds it to the nearest binary64 value, ties to the even significand: 53 bits of
  significand for a magnitude of at least \<open>2^-1022\<close>, multiples of \<open>2^-1074\<close> below it,
  and an infinity for a magnitude of at least \<open>2^1024 - 2^970\<close>. Every operation is
  rounded on its own (no multiplication is fused with an addition, as in a default
  amd64 build). The sign of zero is not kept; a zero divisor is read as \<open>+0\<close>, the
  only zero the program's divisors (\<open>Duration.Seconds\<close> of a zero duration,
  conversions of integers) can be.
\<close>

datatype f64 = Fin rat | PInf | NInf | NaN

text \<open>The exponent \<open>e\<close> with \<open>2^e \<le> q < 2^(e+1)\<close>, for a positive \<open>q\<close>.\<close>

definition floor_log2 :: "rat \<Rightarrow> int" where
  "floor_log2 q =
     (case quotient_of q of
        (n, d) \<Rightarrow> let k = bitlen n - bitlen d in if 2 powi k \<le> q then k else k - 1)"

text \<open>The nearest integer, a tie going to the even one.\<close>

definition round_even :: "rat \<Rightarrow> int" where
  "round_even m =
     (let f = \<lfloor>m\<rfloor>; r = m - of_int f
      in if r < 1 / 2 then f else if 1 / 2 < r then f + 1 else if even f then f else f + 1)"

text \<open>
  Rounding a positive rational: the spacing of the binary64 values around it is
  \<open>2^(e - 52)\<close>, with \<open>e\<close> its exponent and at least \<open>-1022\<close>.
\<close>

definition f64_round_abs :: "rat \<Rightarrow> rat" where
  "f64_round_abs a =
     (let e = max (floor_log2 a) (- 1022) - 52
      in of_int (round_even (a / 2 powi e)) * 2 powi e)"

definition f64_round :: "rat \<Rightarrow> rat" where
  "f64_round q =
     (if q = 0 then 0 else if 0 < q then f64_round_abs q else - f64_round_abs (- q))"

definition f64_threshold :: rat where
  "f64_threshold = 2 ^ 1024 - 2 ^ 970"

definition f64_fin :: "rat \<Rightarrow> f64" where
  "f64_fin q = (if f64_threshold \<le> q then PInf
                else if q \<le> - f64_threshold then NInf
                else Fin (f64_round q))"

definition f64_of_int :: "int \<Rightarrow> f64" where
  "f64_of_int i = f64_fin (of_int i)"

text \<open>
  The smallest factor by which one rounding of a value of at least \<open>2^-1022\<close> changes
  it; the largest is its inverse.
\<close>

definition f64_lo :: rat where
  "f64_lo = 1 - 1 / 2 ^ 53"

text \<open>
  \<open>x\<close> is \<open>X\<close> up to \<open>k\<close> roundings: each rounding moved the value by a factor
  between \<open>f64_lo\<close> and its inverse.
\<close>

definition within_roundings :: "nat \<Rightarrow> rat \<Rightarrow> rat \<Rightarrow> bool" where
  "within_roundings k x X \<longleftrightarrow> X * f64_lo ^ k \<le> x \<and> x * f64_lo ^ k \<le> X"

fun f64_add :: "f64 \<Rightarrow> f64 \<Rightarrow> f64" where
  "f64_add (Fin x) (Fin y) = f64_fin (x + y)"
| "f64_add (Fin x) PInf = PInf"
| "f64_add (Fin x) NInf = NInf"
| "f64_add PInf (Fin y) = PInf"
| "f64_add PInf PInf = PInf"
| "f64_add NInf (Fin y) = NInf"
| "f64_add NInf NInf = NInf"
| "f64_add _ _ = NaN"

fun f64_mul :: "f64 \<Rightarrow> f64 \<Rightarrow> f64" where
  "f64_mul (Fin x) (Fin y) = f64_fin (x * y)"
| "f64_mul (Fin x) PInf = (if x = 0 then NaN else if 0 < x then PInf else NInf)"
| "f64_mul (Fin x) NInf = (if x = 0 then NaN else if 0 < x then NInf else PInf)"
| "f64_mul PInf (Fin y) = (if y = 0 then NaN else if 0 < y then PInf else NInf)"
| "f64_mul NInf (Fin y) = (if y = 0 then NaN else if 0 < y then NInf else PInf)"
| "f64_mul PInf PInf = PInf"
| "f64_mul NInf NInf = PInf"
| "f64_mul PInf NInf = NInf"
| "f64_mul NInf PInf = NInf"
| "f64_mul _ _ = NaN"

text \<open>
  Division: Go does not panic on a floating-point division by zero. \<open>x / 0\<close> is \<open>NaN\<close>
  when \<open>x\<close> is zero and an infinity of the sign of \<open>x\<close> otherwise.
\<close>

fun f64_div :: "f64 \<Rightarrow> f64 \<Rightarrow> f64" where
  "f64_div (Fin x) (Fin y) =
     (if y = 0 then (if x = 0 then NaN else if 0 < x then PInf else NInf)
      else f64_fin (x / y))"
| "f64_div (Fin x) PInf = Fin 0"
| "f64_div (Fin x) NInf = Fin 0"
| "f64_div PInf (Fin y) = (if 0 \<le> y then PInf else NInf)"
| "f64_div NInf (Fin y) = (if 0 \<le> y then NInf else PInf)"
| "f64_div _ _ = NaN"

fun is_finite :: "f64 \<Rightarrow> bool" where
  "is_finite (Fin q) = True"
| "is_finite _ = False"

section \<open>The performance monitor\<close>

text \<open>
  One reading of the runtime at a tick: \<open>m.Alloc\<close> after \<open>runtime.ReadMemStats\<close> and the
  value of \<open>runtime.NumGoroutine()\<close>.
\<close>

record sample =
  Alloc :: uint64
  NumGoroutine :: go_int

text \<open>The local variables of \<open>monitorPerformance\<close> that the loop updates.\<close>

record mon_state =
  mon_maxMem :: uint64
  mon_cpuSamples :: go_int
  mon_totalCPU :: f64

definition mon_init :: mon_state where
  "mon_init = \<lparr>mon_maxMem = 0, mon_cpuSamples = 0, mon_totalCPU = Fin 0\<rparr>"

text \<open>\<open>cpuEstimate := (numGoroutines / float64(startNumCPU)) * 100\<close>\<close>

definition cpuEstimate :: "go_int \<Rightarrow> sample \<Rightarrow> f64" where
  "cpuEstimate startNumCPU s =
     f64_mul (f64_div (f64_of_int (sint (NumGoroutine s))) (f64_of_int (sint startNumCPU)))
       (Fin 100)"

text \<open>The \<open>case <-ticker.C\<close> branch of the select.\<close>

definition on_tick :: "go_int \<Rightarrow> mon_state \<Rightarrow> sample \<Rightarrow> mon_state" where
  "on_tick startNumCPU st s =
     \<lparr>mon_maxMem = (if mon_maxMem st < Alloc s then Alloc s else mon_maxMem st),
      mon_cpuSamples = mon_cpuSamples st + 1,
      mon_totalCPU = f64_add (mon_totalCPU st) (cpuEstimate startNumCPU s)\<rparr>"

text \<open>
  The \<open>case <-done\<close> branch: \<open>avgCPU\<close> is a named result, so it holds the zero value
  unless the guard \<open>cpuSamples > 0\<close> (a signed comparison) lets the division run.
\<close>

definition on_done :: "mon_state \<Rightarrow> uint64 \<times> f64" where
  "on_done st =
     (mon_maxMem st,
      if 0 <s mon_cpuSamples st
      then f64_div (mon_totalCPU st) (f64_of_int (sint (mon_cpuSamples st)))
      else Fin 0)"

text \<open>
  What the select receives, in the order it receives it. When a tick and the close of
  \<open>done\<close> are both ready Go picks either; the list records the choices made. A list
  that ends with no \<open>Done\<close> is a monitor that is still blocked in the select: it has
  not returned, which is \<open>None\<close>.
\<close>

datatype mon_event = Tick sample | Done

fun monitor_loop :: "go_int \<Rightarrow> mon_state \<Rightarrow> mon_event list \<Rightarrow> (uint64 \<times> f64) option" where
  "monitor_loop c st [] = None"
| "monitor_loop c st (Tick s # es) = monitor_loop c (on_tick c st s) es"
| "monitor_loop c st (Done # es) = Some (on_done st)"

definition monitorPerformance :: "go_int \<Rightarrow> mon_event list \<Rightarrow> (uint64 \<times> f64) option" where
  "monitorPerformance startNumCPU es = monitor_loop startNumCPU mon_init es"

section \<open>The mean the monitor is compared with\<close>

text \<open>
  The per-tick estimate and the mean as the specification words them, over the
  rationals: goroutines by processors, times 100; the sum by the count.
\<close>

definition estimate_rat :: "go_int \<Rightarrow> sample \<Rightarrow> rat" where
  "estimate_rat startNumCPU s =
     of_int (sint (NumGoroutine s)) / of_int (sint startNumCPU) * 100"

definition arithmetic_mean :: "rat list \<Rightarrow> rat" where
  "arithmetic_mean xs = sum_list xs / of_nat (length xs)"

section \<open>The file system and the streams\<close>

text \<open>
  A file is the list of its bytes. Several paths can lead to one file
  (\<open>benchmark.txt\<close> and \<open>./benchmark.txt\<close>, an absolute path, a link): \<open>fs_realpath\<close>
  gives the file a path leads to, and the files are kept under it. The program makes no
  link and does not change its directory, so no operation updates \<open>fs_realpath\<close>.
  \<open>fs_free\<close> is the number of bytes the device still accepts: a write beyond it is
  short and returns an error, which is how a copy fails midway.
\<close>

type_synonym path = string

record fs =
  fs_realpath :: "path \<Rightarrow> path"
  fs_files :: "path \<rightharpoonup> string"
  fs_dirs :: "path set"
  fs_free :: nat

text \<open>The file a path leads to, if there is one, and its bytes (none when there is no file).\<close>

definition file_at :: "fs \<Rightarrow> path \<Rightarrow> string option" where
  "file_at s p = fs_files s (fs_realpath s p)"

definition contents :: "fs \<Rightarrow> path \<Rightarrow> string" where
  "contents s p = (case file_at s p of None \<Rightarrow> [] | Some c \<Rightarrow> c)"

text \<open>\<open>os.MkdirAll\<close> that succeeded.\<close>

definition os_MkdirAll :: "path \<Rightarrow> fs \<Rightarrow> fs" where
  "os_MkdirAll d s = s\<lparr>fs_dirs := insert d (fs_dirs s)\<rparr>"

text \<open>\<open>os.Create\<close> that succeeded: the file exists and is empty (an existing file is truncated).\<close>

definition os_Create :: "path \<Rightarrow> fs \<Rightarrow> fs" where
  "os_Create p s =
     s\<lparr>fs_files := (fs_files s)(fs_realpath s p \<mapsto> []),
       fs_free := fs_free s + length (contents s p)\<rparr>"

text \<open>\<open>Write\<close> at the end of the file: the number of bytes written, the error, the new state.\<close>

definition fs_write :: "path \<Rightarrow> string \<Rightarrow> fs \<Rightarrow> nat \<times> string option \<times> fs" where
  "fs_write p b s =
     (let n = min (length b) (fs_free s)
      in (n,
          if n < length b then Some ''no space left on device'' else None,
          s\<lparr>fs_files := (fs_files s)(fs_realpath s p \<mapsto> contents s p @ take n b),
            fs_free := fs_free s - n\<rparr>))"

text \<open>
  The uploaded file as a reader: the results of its successive \<open>Read\<close> calls, each the
  bytes read and the error returned with them. Past the end of the list \<open>Read\<close> returns
  \<open>(0, io.EOF)\<close>.
\<close>

datatype read_err = EOF | ReadFailed string

type_synonym read_result = "string \<times> read_err option"

text \<open>
  \<open>io.Copy\<close> of the Go standard library, after its copy loop: read, write what was read,
  add the count written to \<open>written\<close> (an \<open>int64\<close>), stop at the first write error,
  short write or read error; \<open>io.EOF\<close> ends the copy without an error. (The loop's
  check for a writer that reports more bytes than it was given has no case here:
  \<open>fs_write\<close> never does.)
\<close>

definition copy_write :: "path \<Rightarrow> string \<Rightarrow> int64 \<Rightarrow> fs \<Rightarrow> int64 \<times> string option \<times> fs" where
  "copy_write dst b written s =
     (if b = [] then (written, None, s)
      else (case fs_write dst b s of
              (nw, ew, s') \<Rightarrow>
                (written + of_nat nw,
                 (case ew of Some e \<Rightarrow> Some e
                  | None \<Rightarrow> if length b \<noteq> nw then Some ''short write'' else None),
                 s')))"

fun copyBuffer :: "path \<Rightarrow> read_result list \<Rightarrow> int64 \<Rightarrow> fs \<Rightarrow> int64 \<times> string option \<times> fs" where
  "copyBuffer dst [] written s = (written, None, s)"
| "copyBuffer dst ((b, er) # rs) written s =
     (case copy_write dst b written s of
        (written', Some e, s') \<Rightarrow> (written', Some e, s')
      | (written', None, s') \<Rightarrow>
          (case er of
             None \<Rightarrow> copyBuffer dst rs written' s'
           | Some EOF \<Rightarrow> (written', None, s')
           | Some (ReadFailed e) \<Rightarrow> (written', Some e, s')))"

definition io_Copy :: "path \<Rightarrow> read_result list \<Rightarrow> fs \<Rightarrow> int64 \<times> string option \<times> fs" where
  "io_Copy dst src s = copyBuffer dst src 0 s"


section \<open>The upload handler\<close>

record BenchmarkResult =
  Timestamp :: nat
  FileName :: string
  FileSize :: int64
  Duration :: int64
  TransferRate :: f64
  MemoryUsage :: uint64
  CPUUsage :: f64
  NumGoroutines :: go_int

text \<open>
  The body of the 200 response. The three formatted fields hold the \<open>float64\<close> that
  \<open>fmt.Sprintf\<close> is given (\<open>%.2f MB/s\<close>, \<open>%.2f MB\<close>, \<open>%.1f%%\<close>); Go prints \<open>NaN\<close> as
  \<open>NaN\<close> and the infinities as \<open>+Inf\<close> and \<open>-Inf\<close>.
\<close>

record success_body =
  b_status :: string
  b_destination :: string
  b_size :: int64
  b_duration_ms :: int
  b_transfer_rate :: f64
  b_memory_used_mb :: f64
  b_cpu_usage :: f64

datatype body = ErrorBody string | SuccessBody success_body

text \<open>
  What the handler and the goroutine it starts do, in program order: the \<open>go\<close>
  statements, the close of \<open>perfDone\<close>, the calls into the file system, the log entries
  by level, and the response written by \<open>c.JSON\<close>.
\<close>

datatype event =
    GoMonitor
  | LogInfo string
  | LogError string
  | ClosePerfDone
  | MkdirAll path
  | Create path
  | Copy path
  | GoBenchmark BenchmarkResult
  | JSON nat body
  | Lock
  | OpenFile path
  | WriteString path string
  | Unlock

text \<open>
  The request as gin presents it: \<open>c.Query("dest")\<close> (the empty string when the parameter
  is absent), \<open>c.FormFile("file")\<close> and \<open>fileHeader.Open()\<close>, each an error message or
  its value.
\<close>

record FileHeader =
  Filename :: string
  Size :: int64

record request =
  query_dest :: string
  form_file :: "string + FileHeader"
  file_open :: "string + read_result list"

text \<open>
  Everything else the handler reads from outside: the results of the calls that can fail
  (\<open>None\<close> is a nil error), the clock, the runtime's counters, the two variables the
  monitor goroutine assigns (as the handler finds them when it reads them), and the
  standard library's formatting and \<open>filepath.Dir\<close>.
\<close>

record env =
  env_initialMemory :: uint64
  env_Dir :: "path \<Rightarrow> path"
  env_MkdirAll :: "string option"
  env_Create :: "string option"
  env_copyDuration :: int64
  env_maxMem :: uint64
  env_avgCPU :: f64
  env_NumGoroutine :: go_int
  env_Now :: nat
  env_OpenFile :: "string option"
  env_Format :: "nat \<Rightarrow> string"
  env_fmt_d :: "int \<Rightarrow> string"
  env_fmt_v :: "int64 \<Rightarrow> string"
  env_fmt_f :: "nat \<Rightarrow> f64 \<Rightarrow> string"

text \<open>
  \<open>Duration.Seconds\<close> and \<open>Duration.Milliseconds\<close> of the standard library; a \<open>Duration\<close>
  is an \<open>int64\<close> of nanoseconds. \<open>Seconds\<close> is
  \<open>float64(d / Second) + float64(d % Second) / 1e9\<close>, the integer division truncating.
\<close>

definition Seconds :: "int64 \<Rightarrow> f64" where
  "Seconds d =
     (let sec = sint d sdiv 1000000000; nsec = sint d smod 1000000000
      in f64_add (f64_of_int sec) (f64_div (f64_of_int nsec) (Fin 1000000000)))"

definition Milliseconds :: "int64 \<Rightarrow> int" where
  "Milliseconds d = sint d sdiv 1000000"

definition MB :: "f64 \<Rightarrow> f64" where
  "MB x = f64_div (f64_div x (Fin 1024)) (Fin 1024)"

text \<open>
  The handler of \<open>POST /upload\<close>, branch by branch: the state in which its own calls
  leave the file system (the last of them is \<open>io.Copy\<close>) and its trace. Each \<open>return\<close>
  of the source ends a branch here. The deferred \<open>Close\<close> calls change nothing that is
  modelled; \<open>fileHeader.Size\<close> is only logged.
\<close>

definition upload_handler :: "env \<Rightarrow> request \<Rightarrow> fs \<Rightarrow> fs \<times> event list" where
  "upload_handler w rq s =
    (let initialMemory = env_initialMemory w;
         t0 = [GoMonitor, LogInfo ''upload request received''];
         destPath = query_dest rq
     in
     if destPath = [] then
       (s, t0 @ [LogError ''destination path not provided'',
                 JSON 400 (ErrorBody ''destination path is required''),
                 ClosePerfDone])
     else
     let t1 = t0 @ [LogInfo ''processing upload''];
         destDir = env_Dir w destPath
     in
     case env_MkdirAll w of
       Some err \<Rightarrow>
         (s, t1 @ [MkdirAll destDir, LogError ''failed to create directory'',
                   JSON 500 (ErrorBody (''failed to create directory: '' @ err)),
                   ClosePerfDone])
     | None \<Rightarrow>
     let s1 = os_MkdirAll destDir s;
         t2 = t1 @ [MkdirAll destDir]
     in
     case form_file rq of
       Inl err \<Rightarrow>
         (s1, t2 @ [LogError ''failed to get file from request'',
                    JSON 400 (ErrorBody (''failed to get file: '' @ err)),
                    ClosePerfDone])
     | Inr fileHeader \<Rightarrow>
     let fileName = Filename fileHeader;
         t3 = t2 @ [LogInfo ''file received'']
     in
     case file_open rq of
       Inl err \<Rightarrow>
         (s1, t3 @ [LogError ''failed to open uploaded file'',
                    JSON 500 (ErrorBody (''failed to open file: '' @ err)),
                    ClosePerfDone])
     | Inr file \<Rightarrow>
     case env_Create w of
       Some err \<Rightarrow>
         (s1, t3 @ [Create destPath, LogError ''failed to create destination file'',
                    JSON 500 (ErrorBody (''failed to create destination file: '' @ err)),
                    ClosePerfDone])
     | None \<Rightarrow>
     let s2 = os_Create destPath s1;
         t4 = t3 @ [Create destPath, Copy destPath]
     in
     case io_Copy destPath file s2 of
       (written, Some err, s3) \<Rightarrow>
         (s3, t4 @ [LogError ''failed to save file'',
                    JSON 500 (ErrorBody (''failed to save file: '' @ err)),
                    ClosePerfDone])
     | (written, None, s3) \<Rightarrow>
     let copyDuration = env_copyDuration w;
         transferRate = f64_div (f64_of_int (sint written)) (Seconds copyDuration);
         memoryUsed = env_maxMem w - initialMemory;
         numGoroutines = env_NumGoroutine w;
         avgCPU = env_avgCPU w;
         result = \<lparr>Timestamp = env_Now w, FileName = fileName, FileSize = written,
                   Duration = copyDuration, TransferRate = transferRate,
                   MemoryUsage = memoryUsed, CPUUsage = avgCPU,
                   NumGoroutines = numGoroutines\<rparr>
     in
       (s3, t4 @ [ClosePerfDone, LogInfo ''file saved successfully'', GoBenchmark result,
                  JSON 200 (SuccessBody
                    \<lparr>b_status = ''success'', b_destination = destPath, b_size = written,
                     b_duration_ms = Milliseconds copyDuration,
                     b_transfer_rate = MB transferRate,
                     b_memory_used_mb = MB (f64_of_int (uint memoryUsed)),
                     b_cpu_usage = avgCPU\<rparr>)]))"

section \<open>The benchmark log\<close>

definition benchmark_path :: path where
  "benchmark_path = ''benchmark.txt''"

text \<open>The line \<open>fmt.Sprintf\<close> builds; the last character is the newline.\<close>

definition benchmarkLine :: "env \<Rightarrow> BenchmarkResult \<Rightarrow> string" where
  "benchmarkLine w r =
     ''['' @ env_Format w (Timestamp r) @ ''] File: '' @ FileName r
     @ '', Size: '' @ env_fmt_d w (sint (FileSize r)) @ '' bytes, Duration: ''
     @ env_fmt_v w (Duration r)
     @ '', Transfer Rate: '' @ env_fmt_f w 2 (MB (TransferRate r))
     @ '' MB/s, Memory Used: '' @ env_fmt_f w 2 (MB (f64_of_int (uint (MemoryUsage r))))
     @ '' MB, CPU Usage: '' @ env_fmt_f w 1 (CPUUsage r)
     @ ''%, Goroutines: '' @ env_fmt_d w (sint (NumGoroutines r)) @ [CHR 0x0A]"

text \<open>
  The goroutine \<open>go func(r BenchmarkResult)\<close>: \<open>os.OpenFile\<close> with
  \<open>O_APPEND|O_CREATE|O_WRONLY\<close>, then \<open>WriteString\<close>; both errors are logged and
  nothing is returned to anyone.
\<close>

definition append_benchmark :: "env \<Rightarrow> BenchmarkResult \<Rightarrow> fs \<Rightarrow> fs \<times> event list" where
  "append_benchmark w r s =
     (case env_OpenFile w of
        Some err \<Rightarrow> (s, [Lock, OpenFile benchmark_path, LogError ''failed to open benchmark file'', Unlock])
      | None \<Rightarrow>
          let s1 = s\<lparr>fs_files := (fs_files s)(fs_realpath s benchmark_path
                                                  \<mapsto> contents s benchmark_path)\<rparr>;
              line = benchmarkLine w r
          in (case fs_write benchmark_path line s1 of
                (n, Some err, s2) \<Rightarrow>
                  (s2, [Lock, OpenFile benchmark_path, WriteString benchmark_path line,
                        LogError ''failed to write to benchmark file'', Unlock])
              | (n, None, s2) \<Rightarrow>
                  (s2, [Lock, OpenFile benchmark_path, WriteString benchmark_path line,
                        Unlock])))"

text \<open>Reading a trace: the responses written, the benchmark results dispatched.\<close>

fun responses :: "event list \<Rightarrow> (nat \<times> body) list" where
  "responses [] = []"
| "responses (JSON st b # es) = (st, b) # responses es"
| "responses (e # es) = responses es"

fun dispatched :: "event list \<Rightarrow> BenchmarkResult list" where
  "dispatched [] = []"
| "dispatched (GoBenchmark r # es) = r # dispatched es"
| "dispatched (e # es) = dispatched es"

text \<open>
  A request served to the end. The benchmark goroutine starts at the \<open>go\<close> statement,
  which comes before \<open>c.JSON\<close>, and nothing orders it with the rest of the handler: the
  schedule \<open>k\<close> is the number of steps the handler still takes before the goroutine runs
  (0: the append comes before the response and the return; 1 or more: after them). The
  steps of the handler that remain touch nothing the goroutine touches, so the steps
  of the goroutine are kept together.
\<close>

fun upto_go :: "event list \<Rightarrow> event list" where
  "upto_go [] = []"
| "upto_go (GoBenchmark r # es) = [GoBenchmark r]"
| "upto_go (e # es) = e # upto_go es"

fun after_go :: "event list \<Rightarrow> event list" where
  "after_go [] = []"
| "after_go (GoBenchmark r # es) = es"
| "after_go (e # es) = after_go es"

fun run_benchmarks :: "env \<Rightarrow> BenchmarkResult list \<Rightarrow> fs \<Rightarrow> fs \<times> event list" where
  "run_benchmarks w [] s = (s, [])"
| "run_benchmarks w (r # rs) s =
     (case append_benchmark w r s of
        (s1, t1) \<Rightarrow> (case run_benchmarks w rs s1 of (s2, t2) \<Rightarrow> (s2, t1 @ t2)))"

definition upload_request :: "env \<Rightarrow> nat \<Rightarrow> request \<Rightarrow> fs \<Rightarrow> fs \<times> event list" where
  "upload_request w k rq s =
     (case upload_handler w rq s of
        (s1, t) \<Rightarrow>
          (case run_benchmarks w (dispatched t) s1 of
             (s2, t') \<Rightarrow> (s2, upto_go t @ take k (after_go t) @ t' @ drop k (after_go t))))"


section \<open>Reading a run\<close>

text \<open>
  The step at which a request stops, in the words of the specification: the five early
  errors, the error during the copy, or a copy that completed with its byte count.
\<close>

datatype outcome =
    EmptyDestination
  | MkdirFailed string
  | NoFileField string
  | OpenFailed string
  | CreateFailed string
  | CopyFailed string
  | Completed int64

definition outcome_of :: "env \<Rightarrow> request \<Rightarrow> fs \<Rightarrow> outcome" where
  "outcome_of w rq s =
     (if query_dest rq = [] then EmptyDestination
      else case env_MkdirAll w of Some e \<Rightarrow> MkdirFailed e | None \<Rightarrow>
           case form_file rq of Inl e \<Rightarrow> NoFileField e | Inr fileHeader \<Rightarrow>
           case file_open rq of Inl e \<Rightarrow> OpenFailed e | Inr file \<Rightarrow>
           case env_Create w of Some e \<Rightarrow> CreateFailed e | None \<Rightarrow>
           case io_Copy (query_dest rq) file
                  (os_Create (query_dest rq) (os_MkdirAll (env_Dir w (query_dest rq)) s)) of
             (written, Some e, s') \<Rightarrow> CopyFailed e
           | (written, None, s') \<Rightarrow> Completed written)"

fun touches_fs :: "event \<Rightarrow> bool" where
  "touches_fs (MkdirAll d) = True"
| "touches_fs (Create p) = True"
| "touches_fs (Copy p) = True"
| "touches_fs (OpenFile p) = True"
| "touches_fs (WriteString p l) = True"
| "touches_fs e = False"

text \<open>
  The channel \<open>perfDone\<close> along a trace: closing a closed channel panics in Go.
\<close>

datatype chan = Open | Closed | Panicked

fun close_chan :: "chan \<Rightarrow> chan" where
  "close_chan Open = Closed"
| "close_chan Closed = Panicked"
| "close_chan Panicked = Panicked"

fun perfDone_after :: "chan \<Rightarrow> event list \<Rightarrow> chan" where
  "perfDone_after ch [] = ch"
| "perfDone_after ch (ClosePerfDone # es) = perfDone_after (close_chan ch) es"
| "perfDone_after ch (e # es) = perfDone_after ch es"

section \<open>The handler and the monitor goroutine, interleaved\<close>

text \<open>
  The success path of the handler from \<open>close(perfDone)\<close> on, and the goroutine
  \<open>go func() { maxMem, avgCPU = monitorPerformance(...) }\<close>, as two threads over the
  variables they share: the channel, \<open>maxMem\<close> and \<open>avgCPU\<close>. An action is one step of
  one thread; a schedule is the list of actions in the order the scheduler ran them.
  An action that its thread cannot take in the configuration gives \<open>None\<close>.
\<close>

datatype handler_pc =
    H_copying
  | H_closed
  | H_read_maxMem uint64
  | H_read_avgCPU uint64 f64

datatype monitor_pc =
    M_running mon_state
  | M_returned uint64 f64
  | M_assigned_maxMem f64
  | M_exited

record conf =
  c_handler :: handler_pc
  c_monitor :: monitor_pc
  c_perfDone :: chan
  c_maxMem :: uint64
  c_avgCPU :: f64

definition conf_init :: conf where
  "conf_init = \<lparr>c_handler = H_copying, c_monitor = M_running mon_init, c_perfDone = Open,
                 c_maxMem = 0, c_avgCPU = Fin 0\<rparr>"

datatype action =
    TickA sample
  | StopA
  | AssignMaxMem
  | AssignAvgCPU
  | CloseA
  | ReadMaxMem
  | ReadAvgCPU

fun step :: "go_int \<Rightarrow> action \<Rightarrow> conf \<Rightarrow> conf option" where
  "step c (TickA smp) k =
     (case c_monitor k of
        M_running st \<Rightarrow> Some (k\<lparr>c_monitor := M_running (on_tick c st smp)\<rparr>)
      | _ \<Rightarrow> None)"
| "step c StopA k =
     (case c_monitor k of
        M_running st \<Rightarrow>
          if c_perfDone k = Closed
          then Some (k\<lparr>c_monitor := M_returned (fst (on_done st)) (snd (on_done st))\<rparr>)
          else None
      | _ \<Rightarrow> None)"
| "step c AssignMaxMem k =
     (case c_monitor k of
        M_returned m a \<Rightarrow> Some (k\<lparr>c_monitor := M_assigned_maxMem a, c_maxMem := m\<rparr>)
      | _ \<Rightarrow> None)"
| "step c AssignAvgCPU k =
     (case c_monitor k of
        M_assigned_maxMem a \<Rightarrow> Some (k\<lparr>c_monitor := M_exited, c_avgCPU := a\<rparr>)
      | _ \<Rightarrow> None)"
| "step c CloseA k =
     (case c_handler k of
        H_copying \<Rightarrow> Some (k\<lparr>c_handler := H_closed, c_perfDone := close_chan (c_perfDone k)\<rparr>)
      | _ \<Rightarrow> None)"
| "step c ReadMaxMem k =
     (case c_handler k of
        H_closed \<Rightarrow> Some (k\<lparr>c_handler := H_read_maxMem (c_maxMem k)\<rparr>)
      | _ \<Rightarrow> None)"
| "step c ReadAvgCPU k =
     (case c_handler k of
        H_read_maxMem m \<Rightarrow> Some (k\<lparr>c_handler := H_read_avgCPU m (c_avgCPU k)\<rparr>)
      | _ \<Rightarrow> None)"

fun run :: "go_int \<Rightarrow> action list \<Rightarrow> conf \<Rightarrow> conf option" where
  "run c [] k = Some k"
| "run c (a # as) k = (case step c a k of None \<Rightarrow> None | Some k' \<Rightarrow> run c as k')"

text \<open>The two values the handler has read when a schedule has run, if it has read both.\<close>

definition handler_reads :: "go_int \<Rightarrow> action list \<Rightarrow> (uint64 \<times> f64) option" where
  "handler_reads c sch =
     (case run c sch conf_init of
        None \<Rightarrow> None
      | Some k \<Rightarrow> (case c_handler k of H_read_avgCPU m a \<Rightarrow> Some (m, a) | _ \<Rightarrow> None))"

text \<open>
  What the specification asks of every schedule: once the handler has read \<open>maxMem\<close>,
  the monitor goroutine has assigned it.
\<close>

fun handler_has_read :: "conf \<Rightarrow> bool" where
  "handler_has_read k =
     (case c_handler k of H_read_maxMem m \<Rightarrow> True | H_read_avgCPU m a \<Rightarrow> True | _ \<Rightarrow> False)"

fun monitor_has_assigned :: "conf \<Rightarrow> bool" where
  "monitor_has_assigned k =
     (case c_monitor k of M_assigned_maxMem a \<Rightarrow> True | M_exited \<Rightarrow> True | _ \<Rightarrow> False)"

section \<open>A request to run the definitions on\<close>

text \<open>
  A three-byte upload to \<open>/tmp/a.bin\<close> on a device with room, read in one chunk and
  then \<open>io.EOF\<close>; the copy takes 2 ms; the formatting functions print placeholders.
\<close>

definition demo_env :: env where
  "demo_env =
     \<lparr>env_initialMemory = 1000000, env_Dir = (\<lambda>p. ''/tmp''), env_MkdirAll = None,
      env_Create = None, env_copyDuration = 2000000, env_maxMem = 1500000,
      env_avgCPU = Fin 75, env_NumGoroutine = 6, env_Now = 0, env_OpenFile = None,
      env_Format = (\<lambda>t. ''T''), env_fmt_d = (\<lambda>i. ''N''), env_fmt_v = (\<lambda>d. ''D''),
      env_fmt_f = (\<lambda>n x. ''F'')\<rparr>"

definition demo_request :: request where
  "demo_request =
     \<lparr>query_dest = ''/tmp/a.bin'',
      form_file = Inr \<lparr>Filename = ''a.bin'', Size = 3\<rparr>,
      file_open = Inr [(''abc'', None), ([], Some EOF)]\<rparr>"

definition demo_fs :: fs where
  "demo_fs =
     \<lparr>fs_realpath = (\<lambda>p. if p = ''./benchmark.txt'' then ''benchmark.txt'' else p),
      fs_files = Map.empty, fs_dirs = {}, fs_free = 1000\<rparr>"



text \<open>An empty upload to \<open>/tmp/empty.dat\<close>, and a clock on which the copy takes no time.\<close>

definition empty_request :: request where
  "empty_request =
     \<lparr>query_dest = ''/tmp/empty.dat'',
      form_file = Inr \<lparr>Filename = ''empty.dat'', Size = 0\<rparr>,
      file_open = Inr [([], Some EOF)]\<rparr>"

definition instant_env :: env where
  "instant_env = demo_env\<lparr>env_copyDuration := 0\<rparr>"

text \<open>
  The handler reads \<open>maxMem\<close> and \<open>avgCPU\<close> before the monitor goroutine has assigned
  them: both are still zero.
\<close>

definition unsampled_env :: env where
  "unsampled_env = demo_env\<lparr>env_maxMem := 0, env_avgCPU := Fin 0\<rparr>"

section \<open>Properties of the monitor\<close>

text \<open>
  C10: when the stop signal is the first thing the monitor receives, it returns a peak
  memory of 0 and an average CPU of 0, whatever the process has allocated; the peak is
  then below every non-zero reading taken at the start of the request.
\<close>

theorem monitor_stopped_before_first_tick:
  "monitorPerformance c (Done # es) = Some (0, Fin 0)
   \<and> (\<forall>initialMemory. initialMemory \<noteq> 0 \<longrightarrow>
        fst (the (monitorPerformance c (Done # es))) < initialMemory)"
  by (simp add: monitorPerformance_def mon_init_def on_done_def word_neq_0_conv)

theorem monitor_stopped_before_first_tick_witness:
  "monitorPerformance 8 [Done, Tick \<lparr>Alloc = 4096, NumGoroutine = 3\<rparr>] = Some (0, Fin 0)
   \<and> (4194304 :: uint64) \<noteq> 0
   \<and> fst (the (monitorPerformance 8 [Done, Tick \<lparr>Alloc = 4096, NumGoroutine = 3\<rparr>])) < (4194304 :: uint64)"
  using monitor_stopped_before_first_tick [of 8 "[Tick \<lparr>Alloc = 4096, NumGoroutine = 3\<rparr>]"]
  by simp

section \<open>Rounding to binary64\<close>

lemma of_int_pow2: "0 \<le> j \<Longrightarrow> (of_int (2 ^ nat j) :: rat) = 2 powi j"
  by (simp add: power_int_def)

lemma bitlen_pos: "0 < n \<Longrightarrow> 1 \<le> bitlen n"
  using bitlen_eq_zero_iff [of n] bitlen_nonneg [of n] by linarith

lemma int_between_pow2:
  assumes "0 < n"
  shows "2 powi (bitlen n - 1) \<le> (of_int n :: rat)" and "(of_int n :: rat) < 2 powi (bitlen n)"
proof -
  have b: "1 \<le> bitlen n" by (rule bitlen_pos [OF assms])
  have "2 ^ nat (bitlen n - 1) \<le> n" "n < 2 ^ nat (bitlen n)"
    using bitlen_bounds [OF assms] by simp_all
  then have "(of_int (2 ^ nat (bitlen n - 1)) :: rat) \<le> of_int n"
    "(of_int n :: rat) < of_int (2 ^ nat (bitlen n))"
    by (simp_all only: of_int_le_iff of_int_less_iff)
  then show "2 powi (bitlen n - 1) \<le> (of_int n :: rat)" "(of_int n :: rat) < 2 powi (bitlen n)"
    using b by (simp_all only: of_int_pow2)
qed

lemma floor_log2_bounds:
  assumes "0 < q"
  shows "2 powi (floor_log2 q) \<le> q" and "q < 2 powi (floor_log2 q + 1)"
proof -
  obtain n d where nd: "quotient_of q = (n, d)" by (cases "quotient_of q")
  have d0: "0 < d" using quotient_of_denom_pos [OF nd] .
  have q: "q = of_int n / of_int d" using quotient_of_div [OF nd] .
  have n0: "0 < n"
  proof (rule ccontr)
    assume "\<not> 0 < n"
    then have "(of_int n :: rat) \<le> 0" by simp
    moreover have "(0 :: rat) < of_int d" using d0 by simp
    ultimately have "of_int n / (of_int d :: rat) \<le> 0" by (simp add: divide_le_0_iff)
    with q assms show False by simp
  qed
  define k where "k = bitlen n - bitlen d"
  note bn = int_between_pow2 [OF n0]
  note bd = int_between_pow2 [OF d0]
  have dpos: "(0 :: rat) < of_int d" using d0 by simp
  have p2: "\<And>j. (0 :: rat) < 2 powi j" by simp
  have up: "q < 2 powi (k + 1)"
  proof -
    have "q < 2 powi (bitlen n) / of_int d"
      unfolding q using bn(2) dpos by (simp add: divide_strict_right_mono)
    also have "\<dots> \<le> 2 powi (bitlen n) / 2 powi (bitlen d - 1)"
      using bd(1) p2 [of "bitlen d - 1"] p2 [of "bitlen n"] dpos
      by (intro divide_left_mono mult_pos_pos) (simp_all add: less_imp_le)
    also have "\<dots> = 2 powi (bitlen n - (bitlen d - 1))"
      by (simp add: power_int_diff)
    also have "bitlen n - (bitlen d - 1) = k + 1" by (simp add: k_def)
    finally show ?thesis .
  qed
  have lo: "2 powi (k - 1) \<le> q"
  proof -
    have "2 powi (k - 1) = (2 :: rat) powi (bitlen n - 1 - bitlen d)"
      by (simp add: k_def algebra_simps)
    also have "\<dots> = 2 powi (bitlen n - 1) / 2 powi (bitlen d)"
      by (simp add: power_int_diff)
    also have "\<dots> \<le> of_int n / 2 powi (bitlen d)"
      using bn(1) p2 [of "bitlen d"] by (simp add: divide_right_mono)
    also have "\<dots> \<le> of_int n / of_int d"
      using bd(2) dpos n0 p2 [of "bitlen d"]
      by (intro divide_left_mono mult_pos_pos) (simp_all add: less_imp_le)
    finally show ?thesis unfolding q .
  qed
  have fl: "floor_log2 q = (if 2 powi k \<le> q then k else k - 1)"
    by (simp add: floor_log2_def nd k_def Let_def)
  show "2 powi (floor_log2 q) \<le> q"
    using lo by (simp add: fl)
  show "q < 2 powi (floor_log2 q + 1)"
    using up by (auto simp: fl not_le)
qed

lemma round_even_error: "\<bar>of_int (round_even m) - m\<bar> \<le> 1 / 2"
proof -
  define f where "f = \<lfloor>m\<rfloor>"
  define r where "r = m - of_int f"
  have r0: "0 \<le> r" and r1: "r < 1"
    unfolding r_def f_def by linarith+
  have m: "m = of_int f + r" by (simp add: r_def)
  have "round_even m = (if r < 1 / 2 then f else if 1 / 2 < r then f + 1
                        else if even f then f else f + 1)"
    by (simp add: round_even_def Let_def f_def r_def)
  then consider "round_even m = f" "r \<le> 1 / 2" | "round_even m = f + 1" "1 / 2 \<le> r"
    by (auto split: if_splits simp: not_less)
  then show ?thesis
  proof cases
    case 1
    then show ?thesis using r0 by (simp add: m)
  next
    case 2
    then show ?thesis using r1 by (simp add: m)
  qed
qed

lemma f64_round_abs_error:
  assumes "2 powi (- 1022) \<le> a"
  shows "\<bar>f64_round_abs a - a\<bar> \<le> a / 2 ^ 53"
proof -
  have a0: "0 < a"
    using assms zero_less_power_int [of "2 :: rat" "- 1022"] by linarith
  define e0 where "e0 = floor_log2 a"
  note fb = floor_log2_bounds [OF a0, folded e0_def]
  have "(2 :: rat) powi (- 1022) < 2 powi (e0 + 1)" using assms fb(2) by (rule order.strict_trans1)
  have "- 1022 < e0 + 1"
  proof (rule ccontr)
    assume "\<not> - 1022 < e0 + 1"
    then have "e0 + 1 \<le> - 1022" by simp
    then have "(2 :: rat) powi (e0 + 1) \<le> 2 powi (- 1022)"
      by (rule power_int_increasing) simp
    with \<open>(2 :: rat) powi (- 1022) < 2 powi (e0 + 1)\<close> show False by simp
  qed
  then have mx: "max e0 (- 1022) = e0" by simp
  define p :: rat where "p = 2 powi (e0 - 52)"
  have p0: "0 < p" by (simp add: p_def)
  have fr: "f64_round_abs a = of_int (round_even (a / p)) * p"
    by (simp add: f64_round_abs_def Let_def mx p_def flip: e0_def)
  have "\<bar>f64_round_abs a - a\<bar> = \<bar>of_int (round_even (a / p)) - a / p\<bar> * p"
  proof -
    have "f64_round_abs a - a = (of_int (round_even (a / p)) - a / p) * p"
      using p0 by (simp add: fr algebra_simps)
    then show ?thesis using p0 by (simp add: abs_mult)
  qed
  also have "\<dots> \<le> 1 / 2 * p"
    using round_even_error [of "a / p"] p0 by (intro mult_right_mono) simp_all
  also have "1 / 2 * p = 2 powi e0 / 2 ^ 53"
  proof -
    have "(2 :: rat) powi (e0 - 52) = 2 powi e0 / 2 powi 52" by (simp add: power_int_diff)
    then show ?thesis by (simp add: p_def)
  qed
  also have "\<dots> \<le> a / 2 ^ 53" using fb(1) by (simp add: divide_right_mono)
  finally show ?thesis .
qed

lemma f64_round_zero: "f64_round 0 = 0"
  by (simp add: f64_round_def)

lemma f64_round_minus: "f64_round (- q) = - f64_round q"
  by (simp add: f64_round_def)

lemma f64_round_error:
  assumes "2 powi (- 1022) \<le> \<bar>q\<bar>"
  shows "\<bar>f64_round q - q\<bar> \<le> \<bar>q\<bar> / 2 ^ 53"
proof (cases "0 < q")
  case True
  then show ?thesis
    using assms f64_round_abs_error [of q] by (simp add: f64_round_def)
next
  case False
  have "q \<noteq> 0" using assms zero_less_power_int [of "2 :: rat" "- 1022"] by auto
  with False have neg: "q < 0" by simp
  then have "\<bar>f64_round_abs (- q) - (- q)\<bar> \<le> (- q) / 2 ^ 53"
    using assms f64_round_abs_error [of "- q"] by simp
  moreover have "f64_round q - q = - (f64_round_abs (- q) - (- q))"
    using neg by (simp add: f64_round_def)
  ultimately show ?thesis using neg by (simp only: abs_minus_cancel abs_of_neg)
qed

lemma f64_lo_bounds: "0 < f64_lo" "f64_lo < 1" "0 < f64_lo ^ k" "f64_lo ^ k \<le> 1"
proof -
  show a: "0 < f64_lo" and b: "f64_lo < 1" by (simp_all add: f64_lo_def)
  show "0 < f64_lo ^ k" using a by simp
  show "f64_lo ^ k \<le> 1" using a b by (simp add: power_le_one less_imp_le)
qed

lemma bernoulli_rat:
  assumes "0 \<le> (u :: rat)" and "u \<le> 1"
  shows "1 - of_nat k * u \<le> (1 - u) ^ k"
proof (induction k)
  case 0
  then show ?case by simp
next
  case (Suc k)
  have "1 - of_nat (Suc k) * u \<le> (1 - of_nat k * u) * (1 - u)"
  proof -
    have "(1 - of_nat k * u) * (1 - u) = 1 - of_nat (Suc k) * u + of_nat k * (u * u)"
      by (simp add: algebra_simps)
    moreover have "0 \<le> of_nat k * (u * u)" using assms by simp
    ultimately show ?thesis by linarith
  qed
  also have "\<dots> \<le> (1 - u) ^ k * (1 - u)"
    using Suc.IH assms by (intro mult_right_mono) simp_all
  finally show ?case by (simp add: mult.commute)
qed

lemma f64_lo_power_half:
  assumes "k \<le> 2 ^ 52"
  shows "1 / 2 \<le> f64_lo ^ k"
proof -
  have "(of_nat k :: rat) \<le> of_nat (2 ^ 52)" using assms by (simp only: of_nat_le_iff)
  then have "(of_nat k :: rat) \<le> 2 ^ 52" by simp
  then have "(of_nat k :: rat) * (1 / 2 ^ 53) \<le> 2 ^ 52 * (1 / 2 ^ 53)"
    by (rule mult_right_mono) simp
  then have "1 / 2 \<le> 1 - (of_nat k :: rat) * (1 / 2 ^ 53)" by simp
  also have "\<dots> \<le> (1 - 1 / 2 ^ 53) ^ k" by (rule bernoulli_rat) simp_all
  finally show ?thesis by (simp add: f64_lo_def)
qed

lemma within_refl: "within_roundings 0 x x"
  by (simp add: within_roundings_def)

lemma within_nonneg:
  assumes "within_roundings k x X" and "0 \<le> X"
  shows "0 \<le> x"
proof -
  have "0 \<le> X * f64_lo ^ k" using assms(2) f64_lo_bounds(3) [of k] by simp
  then show ?thesis using assms(1) by (simp add: within_roundings_def)
qed

lemma within_zero:
  assumes "within_roundings k x 0"
  shows "x = 0"
proof -
  have "0 \<le> x" using within_nonneg [OF assms] by simp
  moreover have "x * f64_lo ^ k \<le> 0" using assms by (simp add: within_roundings_def)
  then have "x \<le> 0" using f64_lo_bounds(3) [of k] by (simp add: mult_le_0_iff)
  ultimately show ?thesis by simp
qed

lemma within_weaken:
  assumes "within_roundings k x X" and "0 \<le> X" and "k \<le> k'"
  shows "within_roundings k' x X"
proof -
  have x0: "0 \<le> x" by (rule within_nonneg [OF assms(1,2)])
  have le: "f64_lo ^ k' \<le> f64_lo ^ k"
    using assms(3) f64_lo_bounds(1,2) by (simp add: power_decreasing less_imp_le)
  have "X * f64_lo ^ k' \<le> X * f64_lo ^ k" using le assms(2) by (rule mult_left_mono)
  moreover have "x * f64_lo ^ k' \<le> x * f64_lo ^ k" using le x0 by (rule mult_left_mono)
  ultimately show ?thesis using assms(1) by (simp add: within_roundings_def)
qed

lemma within_add:
  assumes "within_roundings k x X" and "within_roundings k y Y"
  shows "within_roundings k (x + y) (X + Y)"
  using assms by (simp add: within_roundings_def algebra_simps)

lemma within_mult_const:
  assumes "within_roundings k x X" and "0 \<le> c"
  shows "within_roundings k (x * c) (X * c)"
proof -
  have "X * f64_lo ^ k * c \<le> x * c" "x * f64_lo ^ k * c \<le> X * c"
    using assms by (simp_all add: within_roundings_def mult_right_mono)
  then show ?thesis by (simp add: within_roundings_def algebra_simps)
qed

lemma within_pos:
  assumes "within_roundings k x X" and "0 < X"
  shows "0 < x"
proof -
  have "0 < X * f64_lo ^ k" using assms(2) f64_lo_bounds(3) [of k] by simp
  then show ?thesis using assms(1) by (simp add: within_roundings_def)
qed

lemma within_div:
  assumes "within_roundings j x X" and "within_roundings k y Y" and "0 \<le> X" and "0 < Y"
  shows "within_roundings (j + k) (x / y) (X / Y)"
proof -
  have y0: "0 < y" by (rule within_pos [OF assms(2,4)])
  have x0: "0 \<le> x" by (rule within_nonneg [OF assms(1,3)])
  have lj: "0 < f64_lo ^ j" and lk: "0 < f64_lo ^ k" by (rule f64_lo_bounds)+
  have a: "X * f64_lo ^ j \<le> x" "x * f64_lo ^ j \<le> X"
    and b: "Y * f64_lo ^ k \<le> y" "y * f64_lo ^ k \<le> Y"
    using assms(1,2) by (simp_all add: within_roundings_def)
  have "(X * f64_lo ^ j) * (y * f64_lo ^ k) \<le> x * Y"
    using a(1) b(2) assms(3) y0 lj lk x0 by (intro mult_mono) simp_all
  then have "X * f64_lo ^ (j + k) * y \<le> x * Y" by (simp add: power_add algebra_simps)
  then have 1: "X / Y * f64_lo ^ (j + k) \<le> x / y"
    using y0 assms(4) by (simp add: field_simps)
  have "(x * f64_lo ^ j) * (Y * f64_lo ^ k) \<le> X * y"
    using a(2) b(1) assms(3,4) lj lk x0 by (intro mult_mono) simp_all
  then have "x * f64_lo ^ (j + k) * Y \<le> X * y" by (simp add: power_add algebra_simps)
  then have 2: "x / y * f64_lo ^ (j + k) \<le> X / Y"
    using y0 assms(4) by (simp add: field_simps)
  from 1 2 show ?thesis by (simp add: within_roundings_def)
qed

lemma within_round:
  assumes "within_roundings k x X" and "0 \<le> X" and "x = 0 \<or> 2 powi (- 1022) \<le> x"
  shows "within_roundings (Suc k) (f64_round x) X"
proof (cases "x = 0")
  case True
  then show ?thesis
    using within_weaken [OF assms(1,2), of "Suc k"] by (simp add: f64_round_zero)
next
  case False
  with assms(3) have n: "2 powi (- 1022) \<le> x" by simp
  have x0: "0 < x" using n zero_less_power_int [of "2 :: rat" "- 1022"] by linarith
  have "\<bar>f64_round x - x\<bar> \<le> \<bar>x\<bar> / 2 ^ 53"
    using n x0 by (intro f64_round_error) simp
  then have e: "\<bar>f64_round x - x\<bar> \<le> x / 2 ^ 53" using x0 by simp
  have lo: "x * f64_lo \<le> f64_round x"
  proof -
    have "x - x / 2 ^ 53 \<le> f64_round x" using e by linarith
    then show ?thesis by (simp add: f64_lo_def algebra_simps)
  qed
  have hi: "f64_round x * f64_lo \<le> x"
  proof -
    have "f64_round x \<le> x + x / 2 ^ 53" using e by linarith
    then have "f64_round x * f64_lo \<le> (x + x / 2 ^ 53) * f64_lo"
      using f64_lo_bounds(1) by (intro mult_right_mono) simp_all
    also have "\<dots> = x - x / 2 ^ 53 / 2 ^ 53" by (simp add: f64_lo_def algebra_simps)
    also have "\<dots> \<le> x" using x0 by simp
    finally show ?thesis .
  qed
  have a: "X * f64_lo ^ k \<le> x" "x * f64_lo ^ k \<le> X"
    using assms(1) by (simp_all add: within_roundings_def)
  have "X * f64_lo ^ k * f64_lo \<le> x * f64_lo"
    using a(1) f64_lo_bounds(1) by (intro mult_right_mono) simp_all
  with lo have 1: "X * f64_lo ^ Suc k \<le> f64_round x" by (simp add: algebra_simps)
  have "f64_round x * f64_lo * f64_lo ^ k \<le> x * f64_lo ^ k"
    using hi f64_lo_bounds(3) [of k] by (intro mult_right_mono) simp_all
  with a(2) have 2: "f64_round x * f64_lo ^ Suc k \<le> X" by (simp add: algebra_simps)
  from 1 2 show ?thesis by (simp add: within_roundings_def)
qed

lemma threshold_big: "2 ^ 140 \<le> f64_threshold"
  by (simp add: f64_threshold_def)

lemma f64_fin_small: "\<bar>q\<bar> < 2 ^ 140 \<Longrightarrow> f64_fin q = Fin (f64_round q)"
  using threshold_big by (auto simp: f64_fin_def)

lemma tiny_normal: "(2 :: rat) powi (- 1022) \<le> 1 / 2 ^ 201"
proof -
  have "(2 :: rat) powi (- 1022) \<le> 2 powi (- 201)"
    by (rule power_int_increasing) simp_all
  also have "(2 :: rat) powi (- 201) = 1 / 2 ^ 201"
    by (simp add: power_int_minus_divide)
  finally show ?thesis .
qed

lemma within_upper:
  assumes "within_roundings k x X" and "0 \<le> X" and "k \<le> 2 ^ 52"
  shows "x \<le> 2 * X"
proof -
  have x0: "0 \<le> x" by (rule within_nonneg [OF assms(1,2)])
  have "x * (1 / 2) \<le> x * f64_lo ^ k"
    using f64_lo_power_half [OF assms(3)] x0 by (rule mult_left_mono)
  also have "\<dots> \<le> X" using assms(1) by (simp add: within_roundings_def)
  finally show ?thesis by simp
qed

lemma within_lower:
  assumes "within_roundings k x X" and "0 \<le> X" and "k \<le> 2 ^ 52"
  shows "X \<le> 2 * x"
proof -
  have "X * (1 / 2) \<le> X * f64_lo ^ k"
    using f64_lo_power_half [OF assms(3)] assms(2) by (rule mult_left_mono)
  also have "\<dots> \<le> x" using assms(1) by (simp add: within_roundings_def)
  finally show ?thesis by simp
qed

text \<open>
  One operation: when the exact result is zero or between \<open>2^-200\<close> and \<open>2^130\<close>, the
  operation gives a finite value, one more rounding away from the exact result.
\<close>

lemma round_step:
  assumes "within_roundings k x X" and "X = 0 \<or> 1 / 2 ^ 200 \<le> X" and "X \<le> 2 ^ 130"
    and "k \<le> 2 ^ 52"
  shows "f64_fin x = Fin (f64_round x)" and "within_roundings (Suc k) (f64_round x) X"
proof -
  have X0: "0 \<le> X" using assms(2) by (auto intro: order_trans [of _ "1 / 2 ^ 200"])
  have x0: "0 \<le> x" by (rule within_nonneg [OF assms(1) X0])
  have "x \<le> 2 * X" by (rule within_upper [OF assms(1) X0 assms(4)])
  also have "\<dots> \<le> 2 * 2 ^ 130" using assms(3) by simp
  also have "\<dots> < (2 ^ 140 :: rat)" by simp
  finally have "\<bar>x\<bar> < 2 ^ 140" using x0 by simp
  then show "f64_fin x = Fin (f64_round x)" by (rule f64_fin_small)
  have "x = 0 \<or> 2 powi (- 1022) \<le> x"
  proof (cases "X = 0")
    case True
    then show ?thesis using within_zero [of k x] assms(1) by simp
  next
    case False
    with assms(2) have "1 / 2 ^ 200 \<le> X" by simp
    also have "X \<le> 2 * x" by (rule within_lower [OF assms(1) X0 assms(4)])
    finally have "1 / 2 ^ 201 \<le> x" by simp
    with tiny_normal have "2 powi (- 1022) \<le> x" by (rule order_trans)
    then show ?thesis ..
  qed
  with assms(1) X0 show "within_roundings (Suc k) (f64_round x) X" by (rule within_round)
qed

lemma of_int_step:
  assumes "0 \<le> i" and "i \<le> 2 ^ 64"
  shows "f64_of_int i = Fin (f64_round (of_int i))"
    and "within_roundings 1 (f64_round (of_int i)) (of_int i)"
proof -
  have r: "(of_int i :: rat) = 0 \<or> 1 / 2 ^ 200 \<le> (of_int i :: rat)"
  proof (cases "i = 0")
    case True
    then show ?thesis by simp
  next
    case False
    with assms(1) have "1 \<le> i" by simp
    then have "(of_int 1 :: rat) \<le> of_int i" by (simp only: of_int_le_iff)
    moreover have "(1 / 2 ^ 200 :: rat) \<le> 1" by simp
    ultimately show ?thesis by simp
  qed
  have "(of_int i :: rat) \<le> of_int (2 ^ 64)" using assms(2) by (simp only: of_int_le_iff)
  then have u: "(of_int i :: rat) \<le> 2 ^ 130" by simp
  have k: "(0 :: nat) \<le> 2 ^ 52" by simp
  note s = round_step [OF within_refl r u k]
  show "f64_of_int i = Fin (f64_round (of_int i))" using s(1) by (simp add: f64_of_int_def)
  show "within_roundings 1 (f64_round (of_int i)) (of_int i)" using s(2) by simp
qed

section \<open>The average of the monitor\<close>

lemma sint64_range: "- (2 ^ 63) \<le> sint (w :: 64 word)" "sint (w :: 64 word) < 2 ^ 63"
  using sint_ge [of w] sint_lt [of w] by simp_all

lemma quotient_range:
  assumes "0 \<le> (G :: rat)" and "G = 0 \<or> 1 \<le> G" and "G \<le> 2 ^ 63"
    and "1 \<le> (C :: rat)" and "C \<le> 2 ^ 63"
  shows "G / C = 0 \<or> 1 / 2 ^ 63 \<le> G / C" and "G / C \<le> 2 ^ 63" and "0 \<le> G / C"
proof -
  have C0: "0 < C" using assms(4) by simp
  show "0 \<le> G / C" using assms(1) C0 by simp
  have "G / C \<le> G" using assms(1,4) by (simp add: divide_le_eq mult_le_cancel_left1)
  with assms(3) show "G / C \<le> 2 ^ 63" by simp
  show "G / C = 0 \<or> 1 / 2 ^ 63 \<le> G / C"
  proof (cases "G = 0")
    case True
    then show ?thesis by simp
  next
    case False
    with assms(2) have G1: "1 \<le> G" by simp
    have "1 / 2 ^ 63 \<le> 1 / C" using assms(5) C0 by (simp add: divide_left_mono)
    also have "1 / C \<le> G / C" using G1 C0 by (simp add: divide_right_mono)
    finally show ?thesis ..
  qed
qed

lemma estimate_range:
  assumes "0 < sint c" and "0 \<le> sint (NumGoroutine s)"
  shows "0 \<le> estimate_rat c s" and "estimate_rat c s = 0 \<or> 1 / 2 ^ 60 \<le> estimate_rat c s"
    and "estimate_rat c s \<le> 2 ^ 70"
proof -
  define gi where "gi = sint (NumGoroutine s)"
  define ci where "ci = sint c"
  define G :: rat where "G = of_int gi"
  define C :: rat where "C = of_int ci"
  have gi: "0 \<le> gi" "gi < 2 ^ 63" using assms(2) sint64_range(2) [of "NumGoroutine s"]
    by (simp_all add: gi_def)
  have ci: "1 \<le> ci" "ci < 2 ^ 63" using assms(1) sint64_range(2) [of c]
    by (simp_all add: ci_def)
  have G0: "0 \<le> G" using gi(1) by (simp add: G_def)
  have G1: "G = 0 \<or> 1 \<le> G"
  proof (cases "gi = 0")
    case True
    then show ?thesis by (simp add: G_def)
  next
    case False
    with gi(1) have "1 \<le> gi" by simp
    then have "(of_int 1 :: rat) \<le> of_int gi" by (simp only: of_int_le_iff)
    then show ?thesis by (simp add: G_def)
  qed
  have "(of_int gi :: rat) \<le> of_int (2 ^ 63)" using gi(2) by (simp only: of_int_le_iff)
  then have G2: "G \<le> 2 ^ 63" by (simp add: G_def)
  have "(of_int 1 :: rat) \<le> of_int ci" using ci(1) by (simp only: of_int_le_iff)
  then have C1: "1 \<le> C" by (simp add: C_def)
  have "(of_int ci :: rat) \<le> of_int (2 ^ 63)" using ci(2) by (simp only: of_int_le_iff)
  then have C2: "C \<le> 2 ^ 63" by (simp add: C_def)
  define Q where "Q = G / C"
  note q = quotient_range [OF G0 G1 G2 C1 C2, folded Q_def]
  have E: "estimate_rat c s = Q * 100"
    by (simp add: estimate_rat_def Q_def G_def C_def gi_def ci_def del: of_int_sint)
  show "0 \<le> estimate_rat c s" using q(3) by (simp add: E)
  show "estimate_rat c s \<le> 2 ^ 70"
  proof -
    have "Q * 100 \<le> 2 ^ 63 * 100" using q(2) by simp
    also have "\<dots> \<le> (2 ^ 70 :: rat)" by simp
    finally show ?thesis by (simp add: E)
  qed
  show "estimate_rat c s = 0 \<or> 1 / 2 ^ 60 \<le> estimate_rat c s"
  proof (cases "Q = 0")
    case True
    then show ?thesis by (simp add: E)
  next
    case False
    with q(1) have "1 / 2 ^ 63 \<le> Q" by simp
    then have "1 / 2 ^ 63 * 100 \<le> Q * 100" by simp
    moreover have "(1 / 2 ^ 60 :: rat) \<le> 1 / 2 ^ 63 * 100" by simp
    ultimately have "1 / 2 ^ 60 \<le> Q * 100" by (rule order_trans [rotated])
    then show ?thesis by (simp add: E)
  qed
qed

lemma cpuEstimate_within:
  assumes "0 < sint c" and "0 \<le> sint (NumGoroutine s)"
  shows "\<exists>e. cpuEstimate c s = Fin e \<and> within_roundings 4 e (estimate_rat c s)"
proof -
  define gi where "gi = sint (NumGoroutine s)"
  define ci where "ci = sint c"
  define G :: rat where "G = of_int gi"
  define C :: rat where "C = of_int ci"
  have gi: "0 \<le> gi" "gi \<le> 2 ^ 64" using assms(2) sint64_range(2) [of "NumGoroutine s"]
    by (simp_all add: gi_def)
  have ci: "0 \<le> ci" "ci \<le> 2 ^ 64" "1 \<le> ci" using assms(1) sint64_range(2) [of c]
    by (simp_all add: ci_def)
  have gi63: "gi < 2 ^ 63" using sint64_range(2) [of "NumGoroutine s"] by (simp add: gi_def)
  have ci63: "ci < 2 ^ 63" using sint64_range(2) [of c] by (simp add: ci_def)
  define g' where "g' = f64_round G"
  define c' where "c' = f64_round C"
  have g: "f64_of_int gi = Fin g'" "within_roundings 1 g' G"
    using of_int_step [OF gi] by (simp_all add: g'_def G_def)
  have c: "f64_of_int ci = Fin c'" "within_roundings 1 c' C"
    using of_int_step [OF ci(1,2)] by (simp_all add: c'_def C_def)
  have G0: "0 \<le> G" using gi(1) by (simp add: G_def)
  have G1: "G = 0 \<or> 1 \<le> G"
  proof (cases "gi = 0")
    case True
    then show ?thesis by (simp add: G_def)
  next
    case False
    with gi(1) have "1 \<le> gi" by simp
    then have "(of_int 1 :: rat) \<le> of_int gi" by (simp only: of_int_le_iff)
    then show ?thesis by (simp add: G_def)
  qed
  have "(of_int gi :: rat) \<le> of_int (2 ^ 63)" using gi63 by (simp only: of_int_le_iff)
  then have G2: "G \<le> 2 ^ 63" by (simp add: G_def)
  have "(of_int 1 :: rat) \<le> of_int ci" using ci(3) by (simp only: of_int_le_iff)
  then have C1: "1 \<le> C" by (simp add: C_def)
  have "(of_int ci :: rat) \<le> of_int (2 ^ 63)" using ci63 by (simp only: of_int_le_iff)
  then have C2: "C \<le> 2 ^ 63" by (simp add: C_def)
  have Cpos: "0 < C" using C1 by simp
  have c'pos: "0 < c'" by (rule within_pos [OF c(2) Cpos])
  define Q where "Q = G / C"
  note q = quotient_range [OF G0 G1 G2 C1 C2, folded Q_def]
  have w2: "within_roundings 2 (g' / c') Q"
    using within_div [OF g(2) c(2) G0 Cpos] by (simp add: numeral_2_eq_2 Q_def)
  have qr: "Q = 0 \<or> 1 / 2 ^ 200 \<le> Q"
  proof (cases "Q = 0")
    case True
    then show ?thesis ..
  next
    case False
    with q(1) have "1 / 2 ^ 63 \<le> Q" by simp
    moreover have "(1 / 2 ^ 200 :: rat) \<le> 1 / 2 ^ 63" by simp
    ultimately have "1 / 2 ^ 200 \<le> Q" by (rule order_trans [rotated])
    then show ?thesis ..
  qed
  have qu: "Q \<le> 2 ^ 130" using q(2) by (rule order_trans) simp
  have k2: "(2 :: nat) \<le> 2 ^ 52" by simp
  define q1 where "q1 = f64_round (g' / c')"
  note s1 = round_step [OF w2 qr qu k2, folded q1_def]
  have div: "f64_div (Fin g') (Fin c') = Fin q1"
    using c'pos s1(1) by simp
  define E where "E = Q * 100"
  have w3: "within_roundings 3 (q1 * 100) E"
    using within_mult_const [OF s1(2), of 100] by (simp add: numeral_3_eq_3 E_def)
  have er: "E = 0 \<or> 1 / 2 ^ 200 \<le> E"
  proof (cases "Q = 0")
    case True
    then show ?thesis by (simp add: E_def)
  next
    case False
    with q(1) have "1 / 2 ^ 63 \<le> Q" by simp
    then have "1 / 2 ^ 63 * 100 \<le> Q * 100" by simp
    moreover have "(1 / 2 ^ 200 :: rat) \<le> 1 / 2 ^ 63 * 100" by simp
    ultimately have "1 / 2 ^ 200 \<le> E" unfolding E_def by (rule order_trans [rotated])
    then show ?thesis ..
  qed
  have "Q * 100 \<le> 2 ^ 63 * 100" using q(2) by simp
  then have eu: "E \<le> 2 ^ 130" unfolding E_def by (rule order_trans) simp
  have k3: "(3 :: nat) \<le> 2 ^ 52" by simp
  define e where "e = f64_round (q1 * 100)"
  note s2 = round_step [OF w3 er eu k3, folded e_def]
  have mul: "f64_mul (Fin q1) (Fin 100) = Fin e" using s2(1) by simp
  have EE: "estimate_rat c s = E"
    by (simp add: estimate_rat_def E_def Q_def G_def C_def gi_def ci_def del: of_int_sint)
  have "cpuEstimate c s = Fin e"
    unfolding cpuEstimate_def gi_def [symmetric] ci_def [symmetric] g(1) c(1) div mul ..
  moreover have "within_roundings 4 e (estimate_rat c s)"
    using s2(2) by (simp add: EE eval_nat_numeral)
  ultimately show ?thesis by blast
qed

lemma sint_of_nat_small:
  assumes "k < 2 ^ 63"
  shows "sint (of_nat k :: 64 word) = int k"
proof -
  have "sint (of_nat k :: 64 word) = signed_take_bit 63 (int k)"
    using signed_of_nat [where ?'a = int and ?'b = 64, of k] by simp
  also have "\<dots> = int k"
    using assms by (simp add: signed_take_bit_int_eq_self_iff)
  finally show ?thesis .
qed

lemma on_done_within:
  assumes "k \<le> 2 ^ 50" and "within_roundings (k + 4) t T" and "0 \<le> T"
    and "T = 0 \<or> 1 / 2 ^ 60 \<le> T" and "T \<le> of_nat k * 2 ^ 70"
  shows "\<exists>a. on_done \<lparr>mon_maxMem = m, mon_cpuSamples = of_nat k, mon_totalCPU = Fin t\<rparr>
               = (m, Fin a)
             \<and> (if k = 0 then a = 0 else within_roundings (k + 6) a (T / of_nat k))"
proof (cases "k = 0")
  case True
  then show ?thesis by (simp add: on_done_def)
next
  case False
  have k63: "k < 2 ^ 63" using assms(1) by (rule order.strict_trans1) simp
  have s: "sint (of_nat k :: 64 word) = int k" by (rule sint_of_nat_small [OF k63])
  have pos: "(0 :: 64 word) <s of_nat k" using False by (simp add: word_sless_alt s)
  define K :: rat where "K = of_nat k"
  have K1: "1 \<le> K" using False by (simp add: K_def)
  have Kpos: "0 < K" using K1 by simp
  have "(of_nat k :: rat) \<le> of_nat (2 ^ 50)" using assms(1) by (simp only: of_nat_le_iff)
  then have K50: "K \<le> 2 ^ 50" by (simp add: K_def)
  have "int k \<le> 2 ^ 64"
  proof -
    have "int k \<le> int (2 ^ 50)" using assms(1) by (simp only: of_nat_le_iff)
    then show ?thesis by simp
  qed
  then have n: "f64_of_int (int k) = Fin (f64_round K)" "within_roundings 1 (f64_round K) K"
    using of_int_step [of "int k"] by (simp_all add: K_def)
  define n' where "n' = f64_round K"
  have n'pos: "0 < n'" unfolding n'_def by (rule within_pos [OF n(2) Kpos])
  define Q where "Q = T / K"
  have five: "k + 4 + 1 = k + 5" by simp
  have w: "within_roundings (k + 5) (t / n') Q"
    using within_div [OF assms(2) n(2) [folded n'_def] assms(3) Kpos]
    unfolding five Q_def .
  have Q0: "0 \<le> Q" using assms(3) Kpos by (simp add: Q_def)
  have Qr: "Q = 0 \<or> 1 / 2 ^ 200 \<le> Q"
  proof (cases "T = 0")
    case True
    then show ?thesis by (simp add: Q_def)
  next
    case False
    with assms(4) have "1 / 2 ^ 60 \<le> T" by simp
    then have "1 / 2 ^ 60 / K \<le> T / K" by (rule divide_right_mono) (use Kpos in simp)
    then have "1 / 2 ^ 60 / K \<le> Q" by (simp only: Q_def)
    moreover have "1 / 2 ^ 60 / 2 ^ 50 \<le> 1 / 2 ^ 60 / K"
      using K50 Kpos by (intro divide_left_mono) simp_all
    moreover have "(1 / 2 ^ 200 :: rat) \<le> 1 / 2 ^ 60 / 2 ^ 50" by simp
    ultimately have "1 / 2 ^ 200 \<le> Q" by linarith
    then show ?thesis ..
  qed
  have Qu: "Q \<le> 2 ^ 130"
  proof -
    have "T \<le> K * 2 ^ 70" using assms(5) by (simp only: K_def)
    then have "T / K \<le> K * 2 ^ 70 / K" by (rule divide_right_mono) (use Kpos in simp)
    then have "Q \<le> K * 2 ^ 70 / K" by (simp only: Q_def)
    also have "\<dots> = 2 ^ 70" using Kpos by simp
    also have "\<dots> \<le> (2 ^ 130 :: rat)" by simp
    finally show ?thesis .
  qed
  have kk: "k + 5 \<le> 2 ^ 52"
  proof -
    have "k + 5 \<le> 2 ^ 50 + 5" using assms(1) by simp
    also have "\<dots> \<le> (2 ^ 52 :: nat)" by simp
    finally show ?thesis .
  qed
  define a where "a = f64_round (t / n')"
  note st = round_step [OF w Qr Qu kk, folded a_def]
  have "f64_div (Fin t) (Fin n') = Fin a" using n'pos st(1) by simp
  then have "on_done \<lparr>mon_maxMem = m, mon_cpuSamples = of_nat k, mon_totalCPU = Fin t\<rparr>
             = (m, Fin a)"
    using pos by (simp add: on_done_def s n(1) n'_def)
  moreover have "Suc (k + 5) = k + 6" by simp
  then have "within_roundings (k + 6) a (T / of_nat k)"
    using st(2) by (simp only: Q_def K_def)
  ultimately show ?thesis using False by auto
qed

lemma monitor_loop_within:
  assumes c: "0 < sint c"
  shows "(\<forall>s\<in>set ss. 0 \<le> sint (NumGoroutine s)) \<Longrightarrow> k + length ss \<le> 2 ^ 50 \<Longrightarrow>
    within_roundings (k + 4) t T \<Longrightarrow> 0 \<le> T \<Longrightarrow> T = 0 \<or> 1 / 2 ^ 60 \<le> T \<Longrightarrow>
    T \<le> of_nat k * 2 ^ 70 \<Longrightarrow>
    \<exists>a. monitor_loop c \<lparr>mon_maxMem = m, mon_cpuSamples = of_nat k, mon_totalCPU = Fin t\<rparr>
           (map Tick ss @ Done # es)
         = Some (foldl max m (map Alloc ss), Fin a)
       \<and> (if k + length ss = 0 then a = 0
          else within_roundings (k + length ss + 6) a
                 ((T + sum_list (map (estimate_rat c) ss)) / of_nat (k + length ss)))"
proof (induction ss arbitrary: m k t T)
  case Nil
  from Nil.prems(2) have k: "k \<le> 2 ^ 50" by simp
  from on_done_within [OF k Nil.prems(3,4,5,6), of m] obtain a where
    a: "on_done \<lparr>mon_maxMem = m, mon_cpuSamples = of_nat k, mon_totalCPU = Fin t\<rparr> = (m, Fin a)"
      "if k = 0 then a = 0 else within_roundings (k + 6) a (T / of_nat k)"
    by blast
  show ?case
  proof (cases "k = 0")
    case True
    with a show ?thesis by simp
  next
    case False
    with a show ?thesis by simp
  qed
next
  case (Cons s ss)
  have g: "0 \<le> sint (NumGoroutine s)" using Cons.prems(1) by simp
  define E where "E = estimate_rat c s"
  note er = estimate_range [OF c g, folded E_def]
  obtain e where e: "cpuEstimate c s = Fin e" "within_roundings 4 e E"
    using cpuEstimate_within [OF c g] by (auto simp: E_def)
  have e': "within_roundings (k + 4) e E"
    using within_weaken [OF e(2) er(1), of "k + 4"] by simp
  have w: "within_roundings (k + 4) (t + e) (T + E)"
    by (rule within_add [OF Cons.prems(3) e'])
  have k50: "Suc k + length ss \<le> 2 ^ 50" using Cons.prems(2) by simp
  have T0: "0 \<le> T + E" using Cons.prems(4) er(1) by simp
  have Tr60: "T + E = 0 \<or> 1 / 2 ^ 60 \<le> T + E"
    using Cons.prems(4,5) er(1,2) by auto
  have Tr: "T + E = 0 \<or> 1 / 2 ^ 200 \<le> T + E"
  proof -
    have "(1 / 2 ^ 200 :: rat) \<le> 1 / 2 ^ 60" by simp
    then show ?thesis using Tr60 by auto
  qed
  have Tk: "T + E \<le> of_nat (Suc k) * 2 ^ 70"
  proof -
    have "T + E \<le> of_nat k * 2 ^ 70 + 2 ^ 70" using Cons.prems(6) er(3) by (rule add_mono)
    also have "\<dots> = of_nat (Suc k) * 2 ^ 70" by (simp add: algebra_simps)
    finally show ?thesis .
  qed
  have Tu: "T + E \<le> 2 ^ 130"
  proof -
    have "Suc k \<le> 2 ^ 50" using k50 by simp
    then have "(of_nat (Suc k) :: rat) \<le> of_nat (2 ^ 50)" by (simp only: of_nat_le_iff)
    then have "(of_nat (Suc k) :: rat) \<le> 2 ^ 50" by simp
    then have "(of_nat (Suc k) :: rat) * 2 ^ 70 \<le> 2 ^ 50 * 2 ^ 70"
      by (rule mult_right_mono) simp
    with Tk have "T + E \<le> 2 ^ 50 * 2 ^ 70" by (rule order_trans)
    then show ?thesis by (rule order_trans) simp
  qed
  have kk: "k + 4 \<le> 2 ^ 52"
  proof -
    have "k + 4 \<le> 2 ^ 50 + 4" using k50 by simp
    also have "\<dots> \<le> (2 ^ 52 :: nat)" by simp
    finally show ?thesis .
  qed
  define t' where "t' = f64_round (t + e)"
  note st = round_step [OF w Tr Tu kk, folded t'_def]
  have add: "f64_add (Fin t) (Fin e) = Fin t'" using st(1) by simp
  have "Suc (k + 4) = Suc k + 4" by simp
  then have w': "within_roundings (Suc k + 4) t' (T + E)" using st(2) by (simp only:)
  have step: "on_tick c \<lparr>mon_maxMem = m, mon_cpuSamples = of_nat k, mon_totalCPU = Fin t\<rparr> s
        = \<lparr>mon_maxMem = max m (Alloc s), mon_cpuSamples = of_nat (Suc k),
           mon_totalCPU = Fin t'\<rparr>"
    unfolding on_tick_def e(1) by (auto simp: st(1) max_def)
  have rest: "\<forall>s\<in>set ss. 0 \<le> sint (NumGoroutine s)" using Cons.prems(1) by simp
  from Cons.IH [OF rest k50 w' T0 Tr60 Tk, of "max m (Alloc s)"]
  show ?case by (simp add: step E_def add.assoc)
qed

lemma round_values:
  "f64_round 1 = 1" "f64_round 2 = 2" "f64_round 3 = 3" "f64_round 4 = 4"
  "f64_round 6 = 6" "f64_round 8 = 8" "f64_round 10 = 10" "f64_round 100 = 100"
  "f64_round 150 = 150" "f64_round 200 = 200" "f64_round 250 = 250" "f64_round 400 = 400"
  "f64_round (3 / 2) = 3 / 2" "f64_round (5 / 2) = 5 / 2"
  "f64_round (3 / 8) = 3 / 8" "f64_round (75 / 2) = 75 / 2"
  by code_simp+

lemma round_two_thirds:
  "f64_round (2 / 3) = 6004799503160661 / 9007199254740992"
  "f64_round (150119987579016525 / 2251799813685248) = 2345624805922133 / 35184372088832"
  "f64_round (2345624805922133 / 35184372088832) = 2345624805922133 / 35184372088832"
  by code_simp+

text \<open>
  C5, as the code has it: on the stop signal the monitor returns; the average CPU it
  returns is 0 when no tick completed, and otherwise the \<open>float64\<close> quotient of the
  \<open>float64\<close> sum of the per-tick estimates by the number of ticks, which is the
  arithmetic mean of goroutines by processors times 100 up to the roundings of the
  \<open>n + 6\<close> operations. (\<open>runtime.NumCPU\<close> is at least 1 and goroutine counts are not
  negative; the peak returned with it is the largest \<open>Alloc\<close> sampled, from 0.)
\<close>

theorem monitor_average_cpu:
  assumes "0 < sint startNumCPU" and "\<forall>s\<in>set ss. 0 \<le> sint (NumGoroutine s)"
    and "length ss \<le> 2 ^ 50"
  shows "\<exists>a. monitorPerformance startNumCPU (map Tick ss @ Done # es)
               = Some (foldl max 0 (map Alloc ss), Fin a)
             \<and> (if ss = [] then a = 0
                else within_roundings (length ss + 6) a
                       (arithmetic_mean (map (estimate_rat startNumCPU) ss)))"
proof -
  have w: "within_roundings (0 + 4) 0 0" by (simp add: within_roundings_def)
  have k: "0 + length ss \<le> 2 ^ 50" using assms(3) by simp
  have T: "(0 :: rat) \<le> 0" "(0 :: rat) = 0 \<or> 1 / 2 ^ 60 \<le> (0 :: rat)"
    "(0 :: rat) \<le> of_nat 0 * 2 ^ 70" by simp_all
  from monitor_loop_within [OF assms(1,2) k w T, of 0 es] obtain a where
    a: "monitor_loop startNumCPU \<lparr>mon_maxMem = 0, mon_cpuSamples = of_nat 0, mon_totalCPU = Fin 0\<rparr>
          (map Tick ss @ Done # es) = Some (foldl max 0 (map Alloc ss), Fin a)"
       "if 0 + length ss = 0 then a = 0
        else within_roundings (0 + length ss + 6) a
               ((0 + sum_list (map (estimate_rat startNumCPU) ss)) / of_nat (0 + length ss))"
    by blast
  have m: "monitorPerformance startNumCPU (map Tick ss @ Done # es)
             = Some (foldl max 0 (map Alloc ss), Fin a)"
    using a(1) by (simp add: monitorPerformance_def mon_init_def)
  show ?thesis
  proof (cases "ss = []")
    case True
    with a(2) m show ?thesis by simp
  next
    case False
    with a(2) have "within_roundings (length ss + 6) a
        (arithmetic_mean (map (estimate_rat startNumCPU) ss))"
      by (simp add: arithmetic_mean_def)
    with m False show ?thesis by auto
  qed
qed

theorem monitor_average_cpu_witness:
  "0 < sint (4 :: go_int)
   \<and> 0 \<le> sint (NumGoroutine \<lparr>Alloc = 100, NumGoroutine = 6\<rparr>)
   \<and> 0 \<le> sint (NumGoroutine \<lparr>Alloc = 50, NumGoroutine = 10\<rparr>)
   \<and> length [\<lparr>Alloc = 100, NumGoroutine = 6\<rparr>, \<lparr>Alloc = 50, NumGoroutine = 10\<rparr>] \<le> 2 ^ 50
   \<and> monitorPerformance 4
        [Tick \<lparr>Alloc = 100, NumGoroutine = 6\<rparr>, Tick \<lparr>Alloc = 50, NumGoroutine = 10\<rparr>, Done]
      = Some (100, Fin 200)
   \<and> within_roundings 8 200 200"
proof -
  let ?ss = "[\<lparr>Alloc = 100, NumGoroutine = 6 :: go_int\<rparr>, \<lparr>Alloc = 50, NumGoroutine = 10\<rparr>]"
  have c: "0 < sint (4 :: go_int)" by simp
  have g: "\<forall>s\<in>set ?ss. 0 \<le> sint (NumGoroutine s)" by simp
  have n: "length ?ss \<le> 2 ^ 50" by simp
  have v: "monitorPerformance 4
        [Tick \<lparr>Alloc = 100, NumGoroutine = 6\<rparr>, Tick \<lparr>Alloc = 50, NumGoroutine = 10\<rparr>, Done]
      = Some (100, Fin 200)"
    by (simp add: monitorPerformance_def mon_init_def on_tick_def on_done_def cpuEstimate_def
          f64_of_int_def f64_fin_small round_values word_sless_alt)
  from monitor_average_cpu [OF c g n, of "[]"] v
  have "within_roundings 8 200 200"
    by (simp add: arithmetic_mean_def estimate_rat_def)
  with c v show ?thesis by simp
qed

text \<open>
  C5 as stated fails where the division does not come out even in binary: after one tick
  with 2 goroutines on 3 processors the mean of the estimates is \<open>200/3\<close> and the monitor
  returns the \<open>float64\<close> 66.66666666666667.
\<close>

theorem monitor_average_cpu_counterexample:
  "monitorPerformance 3 [Tick \<lparr>Alloc = 4096, NumGoroutine = 2\<rparr>, Done]
     = Some (4096, Fin (2345624805922133 / 35184372088832))
   \<and> arithmetic_mean (map (estimate_rat 3) [\<lparr>Alloc = 4096, NumGoroutine = 2\<rparr>]) = 200 / 3
   \<and> (2345624805922133 / 35184372088832 :: rat) \<noteq> 200 / 3"
  by (simp add: monitorPerformance_def mon_init_def on_tick_def on_done_def cpuEstimate_def
        f64_of_int_def f64_fin_small round_values round_two_thirds word_sless_alt
        arithmetic_mean_def estimate_rat_def)

section \<open>Properties of the handler\<close>

lemma perfDone_after_append:
  "perfDone_after ch (t @ t') = perfDone_after (perfDone_after ch t) t'"
  by (induction ch t rule: perfDone_after.induct) simp_all

lemma append_benchmark_trace:
  "perfDone_after ch (snd (append_benchmark w r s)) = ch
   \<and> responses (snd (append_benchmark w r s)) = []
   \<and> dispatched (snd (append_benchmark w r s)) = []"
  by (simp add: append_benchmark_def Let_def split: option.split prod.split)

lemma responses_append: "responses (t @ t') = responses t @ responses t'"
  by (induction t rule: responses.induct) simp_all

lemma dispatched_append: "dispatched (t @ t') = dispatched t @ dispatched t'"
  by (induction t rule: dispatched.induct) simp_all

lemma run_benchmarks_trace:
  "perfDone_after ch (snd (run_benchmarks w rs s)) = ch
   \<and> responses (snd (run_benchmarks w rs s)) = []
   \<and> dispatched (snd (run_benchmarks w rs s)) = []"
proof (induction rs arbitrary: s)
  case Nil
  then show ?case by simp
next
  case (Cons r rs)
  obtain s1 t1 where a: "append_benchmark w r s = (s1, t1)" by (cases "append_benchmark w r s")
  obtain s2 t2 where b: "run_benchmarks w rs s1 = (s2, t2)" by (cases "run_benchmarks w rs s1")
  have "perfDone_after ch t1 = ch \<and> responses t1 = [] \<and> dispatched t1 = []"
    using append_benchmark_trace [of ch w r s] a by simp
  moreover have "perfDone_after ch t2 = ch \<and> responses t2 = [] \<and> dispatched t2 = []"
    using Cons.IH [of s1] b by simp
  ultimately show ?case
    by (simp add: a b perfDone_after_append responses_append dispatched_append)
qed

lemma upto_after_go: "upto_go t @ after_go t = t"
  by (induction t rule: upto_go.induct) simp_all

lemma go_schedule: "upto_go t @ take k (after_go t) @ drop k (after_go t) = t"
  by (simp add: upto_after_go)

lemma upload_request_unfold:
  "upload_request w k rq s =
     (fst (run_benchmarks w (dispatched (snd (upload_handler w rq s))) (fst (upload_handler w rq s))),
      upto_go (snd (upload_handler w rq s)) @ take k (after_go (snd (upload_handler w rq s)))
      @ snd (run_benchmarks w (dispatched (snd (upload_handler w rq s))) (fst (upload_handler w rq s)))
      @ drop k (after_go (snd (upload_handler w rq s))))"
  by (simp add: upload_request_def split: prod.split)

lemma upload_request_trace:
  "perfDone_after ch (snd (upload_request w k rq s)) = perfDone_after ch (snd (upload_handler w rq s))
   \<and> responses (snd (upload_request w k rq s)) = responses (snd (upload_handler w rq s))
   \<and> dispatched (snd (upload_request w k rq s)) = dispatched (snd (upload_handler w rq s))"
proof -
  define t where "t = snd (upload_handler w rq s)"
  define t' where "t' = snd (run_benchmarks w (dispatched t) (fst (upload_handler w rq s)))"
  define a where "a = upto_go t @ take k (after_go t)"
  define b where "b = drop k (after_go t)"
  have ab: "a @ b = t" by (simp add: a_def b_def upto_after_go)
  have tr: "snd (upload_request w k rq s) = a @ t' @ b"
    by (simp add: upload_request_unfold a_def b_def t'_def t_def)
  have q: "perfDone_after (perfDone_after ch a) t' = perfDone_after ch a"
    "responses t' = []" "dispatched t' = []"
    using run_benchmarks_trace [of "perfDone_after ch a" w "dispatched t" "fst (upload_handler w rq s)"]
    by (simp_all add: t'_def)
  have "perfDone_after ch (a @ t' @ b) = perfDone_after ch (a @ b)"
    by (simp add: perfDone_after_append q)
  moreover have "responses (a @ t' @ b) = responses (a @ b)"
    by (simp add: responses_append q)
  moreover have "dispatched (a @ t' @ b) = dispatched (a @ b)"
    by (simp add: dispatched_append q)
  ultimately show ?thesis by (simp add: tr ab t_def)
qed

lemma upload_request_set:
  "set (snd (upload_request w k rq s))
     = set (snd (upload_handler w rq s))
       \<union> set (snd (run_benchmarks w (dispatched (snd (upload_handler w rq s)))
                    (fst (upload_handler w rq s))))"
proof -
  define t where "t = snd (upload_handler w rq s)"
  have "set (upto_go t @ take k (after_go t) @ drop k (after_go t)) = set t"
    by (simp only: go_schedule)
  then have "set (upto_go t) \<union> (set (take k (after_go t)) \<union> set (drop k (after_go t))) = set t"
    by (simp only: set_append)
  then show ?thesis by (auto simp: upload_request_unfold t_def [symmetric])
qed

lemma handler_closes_once:
  "count_list (snd (upload_handler w rq s)) GoMonitor = 1
   \<and> count_list (snd (upload_handler w rq s)) ClosePerfDone = 1
   \<and> perfDone_after Open (snd (upload_handler w rq s)) = Closed"
  by (simp add: upload_handler_def Let_def split: option.split sum.split prod.split)

lemma monitor_stops_once_closed:
  assumes "c_monitor k = M_running st" and "c_perfDone k = Closed"
  shows "\<exists>k'. run c [StopA, AssignMaxMem, AssignAvgCPU] k = Some k' \<and> c_monitor k' = M_exited"
  using assms by simp

text \<open>
  C9: on every path of the handler (the five early errors, the error during the copy,
  the success path) \<open>perfDone\<close> is closed exactly once before the handler returns: the
  handler starts one monitor, its trace holds one close, the channel ends closed and
  never panics, and the benchmark goroutine does not touch it, whenever it runs. A
  running monitor whose channel is closed can take the \<open>done\<close> branch and exit, so
  none is left behind.
\<close>

theorem perfDone_closed_exactly_once:
  "count_list (snd (upload_handler w rq s)) GoMonitor = 1
   \<and> count_list (snd (upload_handler w rq s)) ClosePerfDone = 1
   \<and> perfDone_after Open (snd (upload_handler w rq s)) = Closed
   \<and> perfDone_after Open (snd (upload_request w k rq s)) = Closed
   \<and> (\<forall>k st. c_monitor k = M_running st \<and> c_perfDone k = Closed \<longrightarrow>
          (\<exists>k'. run c [StopA, AssignMaxMem, AssignAvgCPU] k = Some k'
                \<and> c_monitor k' = M_exited))"
  using handler_closes_once [of w rq s] upload_request_trace [of Open w k rq s]
    monitor_stops_once_closed [of _ _ c]
  by simp

theorem perfDone_closed_exactly_once_witness:
  "count_list (snd (upload_handler demo_env demo_request demo_fs)) ClosePerfDone = 1
   \<and> perfDone_after Open (snd (upload_handler demo_env (demo_request\<lparr>query_dest := []\<rparr>) demo_fs))
       = Closed
   \<and> c_monitor (conf_init\<lparr>c_perfDone := Closed\<rparr>) = M_running mon_init
   \<and> c_perfDone (conf_init\<lparr>c_perfDone := Closed\<rparr>) = Closed
   \<and> (\<exists>k'. run 8 [StopA, AssignMaxMem, AssignAvgCPU] (conf_init\<lparr>c_perfDone := Closed\<rparr>) = Some k'
            \<and> c_monitor k' = M_exited)"
proof -
  have m: "c_monitor (conf_init\<lparr>c_perfDone := Closed\<rparr>) = M_running mon_init"
    "c_perfDone (conf_init\<lparr>c_perfDone := Closed\<rparr>) = Closed"
    by (simp_all add: conf_init_def)
  have "\<exists>k'. run 8 [StopA, AssignMaxMem, AssignAvgCPU] (conf_init\<lparr>c_perfDone := Closed\<rparr>) = Some k'
            \<and> c_monitor k' = M_exited"
    using m perfDone_closed_exactly_once [of demo_env demo_request demo_fs 0 8] by blast
  then show ?thesis
    using m perfDone_closed_exactly_once [of demo_env demo_request demo_fs 0 8]
      perfDone_closed_exactly_once [of demo_env "demo_request\<lparr>query_dest := []\<rparr>" demo_fs 0 8]
    by simp
qed

lemma handler_by_outcome:
  "length (dispatched (snd (upload_handler w rq s)))
     = (case outcome_of w rq s of Completed n \<Rightarrow> 1 | _ \<Rightarrow> 0)
   \<and> map fst (responses (snd (upload_handler w rq s)))
     = [case outcome_of w rq s of
          EmptyDestination \<Rightarrow> 400 | NoFileField e \<Rightarrow> 400 | Completed n \<Rightarrow> 200 | _ \<Rightarrow> 500]"
  by (simp add: upload_handler_def outcome_of_def Let_def
           split: option.split sum.split prod.split)

text \<open>
  C6: under every schedule, a request dispatches one benchmark result when its copy
  completed and none when it stopped at any of the six errors; the one response it
  writes is 200 in the first case and 400 or 500 in the others.
\<close>

theorem one_benchmark_per_completed_upload:
  "length (dispatched (snd (upload_request w k rq s)))
     = (case outcome_of w rq s of Completed n \<Rightarrow> 1 | _ \<Rightarrow> 0)
   \<and> map fst (responses (snd (upload_request w k rq s)))
     = [case outcome_of w rq s of
          EmptyDestination \<Rightarrow> 400 | NoFileField e \<Rightarrow> 400 | Completed n \<Rightarrow> 200 | _ \<Rightarrow> 500]"
  using handler_by_outcome [of w rq s] upload_request_trace [of Open w k rq s] by simp

theorem one_benchmark_per_completed_upload_witness:
  "outcome_of demo_env demo_request demo_fs = Completed 3
   \<and> length (dispatched (snd (upload_request demo_env 0 demo_request demo_fs))) = 1
   \<and> outcome_of (demo_env\<lparr>env_Create := Some ''permission denied''\<rparr>) demo_request demo_fs
       = CreateFailed ''permission denied''
   \<and> length (dispatched (snd (upload_request (demo_env\<lparr>env_Create := Some ''permission denied''\<rparr>)
                                   1 demo_request demo_fs))) = 0"
proof -
  have a: "outcome_of demo_env demo_request demo_fs = Completed 3"
    by (simp add: outcome_of_def demo_env_def demo_request_def demo_fs_def io_Copy_def
          copy_write_def fs_write_def os_Create_def os_MkdirAll_def contents_def file_at_def)
  have b: "outcome_of (demo_env\<lparr>env_Create := Some ''permission denied''\<rparr>) demo_request demo_fs
           = CreateFailed ''permission denied''"
    by (simp add: outcome_of_def demo_env_def demo_request_def)
  show ?thesis
    using one_benchmark_per_completed_upload [of demo_env 0 demo_request demo_fs]
      one_benchmark_per_completed_upload
        [of "demo_env\<lparr>env_Create := Some ''permission denied''\<rparr>" 1 demo_request demo_fs]
    by (simp add: a b)
qed

lemma handler_empty_destination:
  assumes "query_dest rq = []"
  shows "upload_handler w rq s =
          (s, [GoMonitor, LogInfo ''upload request received'',
               LogError ''destination path not provided'',
               JSON 400 (ErrorBody ''destination path is required''), ClosePerfDone])"
  using assms by (simp add: upload_handler_def)

text \<open>
  C7: with an empty or absent \<open>dest\<close> the response is 400 with the message
  \<open>destination path is required\<close>; the file system is unchanged (no file, no
  directory), no call into the file system is made and no benchmark is dispatched.
\<close>

theorem empty_destination_rejected:
  assumes "query_dest rq = []"
  shows "responses (snd (upload_request w k rq s))
           = [(400, ErrorBody ''destination path is required'')]
         \<and> fst (upload_request w k rq s) = s
         \<and> filter touches_fs (snd (upload_request w k rq s)) = []
         \<and> dispatched (snd (upload_request w k rq s)) = []"
  by (simp add: upload_request_def handler_empty_destination [OF assms])

theorem empty_destination_rejected_witness:
  "query_dest (demo_request\<lparr>query_dest := []\<rparr>) = []
   \<and> responses (snd (upload_request demo_env 0 (demo_request\<lparr>query_dest := []\<rparr>) demo_fs))
       = [(400, ErrorBody ''destination path is required'')]
   \<and> fst (upload_request demo_env 0 (demo_request\<lparr>query_dest := []\<rparr>) demo_fs) = demo_fs"
proof -
  have q: "query_dest (demo_request\<lparr>query_dest := []\<rparr>) = []" by simp
  show ?thesis
    using q empty_destination_rejected [OF q, of demo_env 0 demo_fs] by simp
qed

lemma handler_completed:
  assumes "outcome_of w rq s = Completed n"
  shows "\<exists>fh file s3.
           query_dest rq \<noteq> [] \<and> env_MkdirAll w = None \<and> form_file rq = Inr fh
           \<and> file_open rq = Inr file \<and> env_Create w = None
           \<and> io_Copy (query_dest rq) file
                (os_Create (query_dest rq) (os_MkdirAll (env_Dir w (query_dest rq)) s))
               = (n, None, s3)
           \<and> fst (upload_handler w rq s) = s3
           \<and> dispatched (snd (upload_handler w rq s))
               = [\<lparr>Timestamp = env_Now w, FileName = Filename fh, FileSize = n,
                   Duration = env_copyDuration w,
                   TransferRate = f64_div (f64_of_int (sint n)) (Seconds (env_copyDuration w)),
                   MemoryUsage = env_maxMem w - env_initialMemory w,
                   CPUUsage = env_avgCPU w, NumGoroutines = env_NumGoroutine w\<rparr>]
           \<and> responses (snd (upload_handler w rq s))
               = [(200, SuccessBody
                    \<lparr>b_status = ''success'', b_destination = query_dest rq, b_size = n,
                     b_duration_ms = Milliseconds (env_copyDuration w),
                     b_transfer_rate =
                       MB (f64_div (f64_of_int (sint n)) (Seconds (env_copyDuration w))),
                     b_memory_used_mb =
                       MB (f64_of_int (uint (env_maxMem w - env_initialMemory w))),
                     b_cpu_usage = env_avgCPU w\<rparr>)]"
  using assms
  by (auto simp: outcome_of_def upload_handler_def Let_def
           split: if_splits option.splits sum.splits prod.splits)

lemma handler_ignores_OpenFile:
  "upload_handler (w\<lparr>env_OpenFile := x\<rparr>) rq s = upload_handler w rq s"
  by (simp add: upload_handler_def Let_def split: option.split sum.split prod.split)

lemma append_benchmark_open_failed:
  assumes "env_OpenFile w = Some e"
  shows "append_benchmark w r s =
           (s, [Lock, OpenFile benchmark_path, LogError ''failed to open benchmark file'', Unlock])"
  using assms by (simp add: append_benchmark_def)

lemma append_benchmark_write_failed:
  assumes "env_OpenFile w = None" and "fs_free s < length (benchmarkLine w r)"
  shows "LogError ''failed to write to benchmark file'' \<in> set (snd (append_benchmark w r s))"
  using assms by (simp add: append_benchmark_def fs_write_def Let_def)

lemma upload_request_completed:
  assumes "dispatched (snd (upload_handler w rq s)) = [r]"
  shows "fst (upload_request w k rq s) = fst (append_benchmark w r (fst (upload_handler w rq s)))"
    and "set (snd (upload_request w k rq s))
           = set (snd (upload_handler w rq s))
             \<union> set (snd (append_benchmark w r (fst (upload_handler w rq s))))"
proof -
  obtain s2 t2 where a: "append_benchmark w r (fst (upload_handler w rq s)) = (s2, t2)"
    by (cases "append_benchmark w r (fst (upload_handler w rq s))")
  show "fst (upload_request w k rq s) = fst (append_benchmark w r (fst (upload_handler w rq s)))"
    by (simp add: upload_request_unfold assms a)
  show "set (snd (upload_request w k rq s))
           = set (snd (upload_handler w rq s))
             \<union> set (snd (append_benchmark w r (fst (upload_handler w rq s))))"
    by (simp add: upload_request_set assms a)
qed

text \<open>
  C8: for an upload whose copy completed, the request answers 200 with the handler's
  response whatever becomes of the benchmark append and whenever it runs. The handler
  does not read the outcome of opening the log; when the open fails the goroutine logs
  it and the file system is left as the handler left it; when the write fails (the line
  does not fit on the device) the goroutine logs that.
\<close>

theorem benchmark_failure_is_swallowed:
  assumes "outcome_of w rq s = Completed n"
  shows "map fst (responses (snd (upload_request w k rq s))) = [200]
         \<and> responses (snd (upload_request w k rq s)) = responses (snd (upload_handler w rq s))
         \<and> (\<forall>x. upload_handler (w\<lparr>env_OpenFile := x\<rparr>) rq s = upload_handler w rq s)
         \<and> (\<forall>e. env_OpenFile w = Some e \<longrightarrow>
               LogError ''failed to open benchmark file'' \<in> set (snd (upload_request w k rq s))
               \<and> fst (upload_request w k rq s) = fst (upload_handler w rq s))
         \<and> (\<forall>r. env_OpenFile w = None \<and> dispatched (snd (upload_handler w rq s)) = [r]
                  \<and> fs_free (fst (upload_handler w rq s)) < length (benchmarkLine w r) \<longrightarrow>
               LogError ''failed to write to benchmark file'' \<in> set (snd (upload_request w k rq s)))"
proof -
  obtain r where d: "dispatched (snd (upload_handler w rq s)) = [r]"
    using handler_completed [OF assms] by blast
  have st: "map fst (responses (snd (upload_handler w rq s))) = [200]"
    using handler_by_outcome [of w rq s] assms by simp
  have same: "responses (snd (upload_request w k rq s)) = responses (snd (upload_handler w rq s))"
    using upload_request_trace [of Open w k rq s] by simp
  note req = upload_request_completed [OF d, of k]
  have op: "\<forall>e. env_OpenFile w = Some e \<longrightarrow>
               LogError ''failed to open benchmark file'' \<in> set (snd (upload_request w k rq s))
               \<and> fst (upload_request w k rq s) = fst (upload_handler w rq s)"
    by (simp add: req append_benchmark_open_failed)
  have wr: "\<forall>r'. env_OpenFile w = None \<and> dispatched (snd (upload_handler w rq s)) = [r']
                  \<and> fs_free (fst (upload_handler w rq s)) < length (benchmarkLine w r') \<longrightarrow>
               LogError ''failed to write to benchmark file'' \<in> set (snd (upload_request w k rq s))"
    using d by (auto simp: req append_benchmark_write_failed)
  show ?thesis
    using st same op wr by (simp add: handler_ignores_OpenFile)
qed

theorem benchmark_failure_is_swallowed_witness:
  "outcome_of (demo_env\<lparr>env_OpenFile := Some ''permission denied''\<rparr>) demo_request demo_fs
     = Completed 3
   \<and> map fst (responses (snd (upload_request (demo_env\<lparr>env_OpenFile := Some ''permission denied''\<rparr>)
                                  0 demo_request demo_fs))) = [200]
   \<and> LogError ''failed to open benchmark file''
       \<in> set (snd (upload_request (demo_env\<lparr>env_OpenFile := Some ''permission denied''\<rparr>)
                      0 demo_request demo_fs))"
proof -
  have a: "outcome_of (demo_env\<lparr>env_OpenFile := Some ''permission denied''\<rparr>) demo_request demo_fs
           = Completed 3"
    by (simp add: outcome_of_def demo_env_def demo_request_def demo_fs_def io_Copy_def
          copy_write_def fs_write_def os_Create_def os_MkdirAll_def contents_def file_at_def)
  have b: "env_OpenFile (demo_env\<lparr>env_OpenFile := Some ''permission denied''\<rparr>)
           = Some ''permission denied''" by simp
  show ?thesis
    using a b benchmark_failure_is_swallowed [OF a, of 0] by blast
qed

section \<open>The copy\<close>











section \<open>The transfer rate\<close>

lemma round_even_range:
  assumes "0 \<le> m"
  shows "0 \<le> round_even m" and "of_int (round_even m) \<le> 2 * m"
proof -
  define n where "n = round_even m"
  have e: "\<bar>of_int n - m\<bar> \<le> 1 / 2" unfolding n_def by (rule round_even_error)
  have "- 1 < (of_int n :: rat)" using e assms by linarith
  then have "(of_int (- 1) :: rat) < of_int n" by simp
  then have "- 1 < n" by (simp only: of_int_less_iff)
  then show "0 \<le> round_even m" by (simp add: n_def)
  show "of_int (round_even m) \<le> 2 * m"
  proof (cases "1 / 2 \<le> m")
    case True
    then have "(of_int n :: rat) \<le> 2 * m" using e by linarith
    then show ?thesis by (simp only: n_def)
  next
    case False
    then have "(of_int n :: rat) < 1" using e by linarith
    then have "(of_int n :: rat) < of_int 1" by simp
    then have "n < 1" by (simp only: of_int_less_iff)
    then have "n \<le> 0" by simp
    then have "(of_int n :: rat) \<le> of_int 0" by (simp only: of_int_le_iff)
    then have "(of_int n :: rat) \<le> 2 * m" using assms by simp
    then show ?thesis by (simp only: n_def)
  qed
qed

lemma f64_round_abs_range:
  assumes "0 < a"
  shows "0 \<le> f64_round_abs a" and "f64_round_abs a \<le> 2 * a"
proof -
  define e where "e = max (floor_log2 a) (- 1022) - 52"
  define p :: rat where "p = 2 powi e"
  have p0: "0 < p" by (simp add: p_def)
  define m where "m = a / p"
  have m0: "0 \<le> m" using assms p0 by (simp add: m_def)
  have v: "f64_round_abs a = of_int (round_even m) * p"
    by (simp add: f64_round_abs_def Let_def e_def p_def m_def)
  note r = round_even_range [OF m0]
  have "(of_int 0 :: rat) \<le> of_int (round_even m)" using r(1) by (simp only: of_int_le_iff)
  then show "0 \<le> f64_round_abs a" using p0 by (simp add: v)
  have "of_int (round_even m) * p \<le> 2 * m * p" using r(2) p0 by (rule mult_right_mono [OF _ less_imp_le])
  also have "\<dots> = 2 * a" using p0 by (simp add: m_def)
  finally show "f64_round_abs a \<le> 2 * a" by (simp add: v)
qed

lemma f64_round_bound: "\<bar>f64_round q\<bar> \<le> 2 * \<bar>q\<bar>"
proof -
  consider "q = 0" | "0 < q" | "q < 0" by linarith
  then show ?thesis
  proof cases
    case 1
    then show ?thesis by (simp add: f64_round_def)
  next
    case 2
    then show ?thesis using f64_round_abs_range [OF 2] by (simp add: f64_round_def)
  next
    case 3
    then have "0 < - q" by simp
    from f64_round_abs_range [OF this] 3 show ?thesis by (simp add: f64_round_def)
  qed
qed

text \<open>An operation whose exact result is below \<open>2^139\<close> in magnitude gives a finite value.\<close>

lemma fin_round:
  assumes "\<bar>q\<bar> \<le> B" and "B < 2 ^ 139"
  shows "f64_fin q = Fin (f64_round q)" and "\<bar>f64_round q\<bar> \<le> 2 * B"
proof -
  have "\<bar>q\<bar> < 2 ^ 139" using assms by simp
  also have "\<dots> < (2 ^ 140 :: rat)" by simp
  finally show "f64_fin q = Fin (f64_round q)" by (rule f64_fin_small)
  have "\<bar>f64_round q\<bar> \<le> 2 * \<bar>q\<bar>" by (rule f64_round_bound)
  also have "\<dots> \<le> 2 * B" using assms(1) by simp
  finally show "\<bar>f64_round q\<bar> \<le> 2 * B" .
qed

lemma sdiv_smod_billion:
  fixes D :: int
  shows "\<bar>D sdiv 1000000000\<bar> \<le> \<bar>D\<bar>" and "\<bar>D smod 1000000000\<bar> \<le> 1000000000"
    and "(- D) sdiv 1000000000 = - (D sdiv 1000000000)"
    and "(- D) smod 1000000000 = - (D smod 1000000000)"
    and "0 < D \<Longrightarrow> 0 \<le> D sdiv 1000000000 \<and> 0 \<le> D smod 1000000000
           \<and> D = D sdiv 1000000000 * 1000000000 + D smod 1000000000"
proof -
  have "\<bar>D\<bar> div 1000000000 \<le> \<bar>D\<bar> div 1" by (rule zdiv_mono2) simp_all
  then have a: "\<bar>D\<bar> div 1000000000 \<le> \<bar>D\<bar>" by simp
  show "\<bar>D sdiv 1000000000\<bar> \<le> \<bar>D\<bar>"
    using a by (simp add: signed_divide_int_def abs_mult abs_sgn_eq)
  have "\<bar>D\<bar> mod 1000000000 < 1000000000" by (rule pos_mod_bound) simp
  then have "\<bar>D\<bar> mod 1000000000 \<le> 1000000000" by (rule less_imp_le)
  then show "\<bar>D smod 1000000000\<bar> \<le> 1000000000"
    by (simp add: signed_modulo_int_def abs_mult abs_sgn_eq)
  show "(- D) sdiv 1000000000 = - (D sdiv 1000000000)"
    by (simp add: signed_divide_int_def sgn_minus)
  show "(- D) smod 1000000000 = - (D smod 1000000000)"
    by (simp add: signed_modulo_int_def sgn_minus)
  show "0 \<le> D sdiv 1000000000 \<and> 0 \<le> D smod 1000000000
           \<and> D = D sdiv 1000000000 * 1000000000 + D smod 1000000000" if "0 < D"
    using that by (simp add: signed_divide_int_def signed_modulo_int_def)
qed

text \<open>
  \<open>Duration.Seconds\<close> of a duration that is not zero: a finite value, not zero, of at
  least half a nanosecond in magnitude; for a positive duration it is the duration in
  seconds up to three roundings.
\<close>

lemma Seconds_nonzero:
  assumes "(d :: 64 word) \<noteq> 0"
  shows "\<exists>S. Seconds d = Fin S \<and> 1 / 2000000000 \<le> \<bar>S\<bar>
           \<and> (0 < sint d \<longrightarrow> within_roundings 3 S (of_int (sint d) / 1000000000))"
proof -
  define S :: "int \<Rightarrow> rat" where
    "S D = f64_round (f64_round (of_int (D sdiv 1000000000))
                      + f64_round (f64_round (of_int (D smod 1000000000)) / 1000000000))" for D
  have fin: "f64_add (f64_of_int (D sdiv 1000000000))
                (f64_div (f64_of_int (D smod 1000000000)) (Fin 1000000000)) = Fin (S D)"
    if D: "\<bar>D\<bar> \<le> 2 ^ 63" for D :: int
  proof -
    define A :: rat where "A = of_int (D sdiv 1000000000)"
    define B :: rat where "B = of_int (D smod 1000000000)"
    have "\<bar>D sdiv 1000000000\<bar> \<le> 2 ^ 63" using sdiv_smod_billion(1) [of D] D by linarith
    then have "(of_int \<bar>D sdiv 1000000000\<bar> :: rat) \<le> of_int (2 ^ 63)"
      by (simp only: of_int_le_iff)
    then have A: "\<bar>A\<bar> \<le> 2 ^ 63" by (simp add: A_def)
    have "(of_int \<bar>D smod 1000000000\<bar> :: rat) \<le> of_int 1000000000"
      using sdiv_smod_billion(2) [of D] by (simp only: of_int_le_iff)
    then have B: "\<bar>B\<bar> \<le> 1000000000" by (simp add: B_def)
    note a = fin_round [OF A]
    note b = fin_round [OF B]
    define a' where "a' = f64_round A"
    define b' where "b' = f64_round B"
    have a': "f64_fin A = Fin a'" "\<bar>a'\<bar> \<le> 2 * 2 ^ 63" using a by (simp_all add: a'_def)
    have b': "f64_fin B = Fin b'" "\<bar>b'\<bar> \<le> 2 * 1000000000" using b by (simp_all add: b'_def)
    have "\<bar>b' / 1000000000\<bar> = \<bar>b'\<bar> / 1000000000" by simp
    also have "\<dots> \<le> 2 * 1000000000 / 1000000000" using b'(2) by (rule divide_right_mono) simp
    finally have q: "\<bar>b' / 1000000000\<bar> \<le> 2" by simp
    define c' where "c' = f64_round (b' / 1000000000)"
    have c': "f64_fin (b' / 1000000000) = Fin c'" "\<bar>c'\<bar> \<le> 2 * 2"
      using fin_round [OF q] by (simp_all add: c'_def)
    have "\<bar>a' + c'\<bar> \<le> \<bar>a'\<bar> + \<bar>c'\<bar>" by (rule abs_triangle_ineq)
    also have "\<dots> \<le> 2 * 2 ^ 63 + 2 * 2" using a'(2) c'(2) by (rule add_mono)
    finally have s: "\<bar>a' + c'\<bar> \<le> 2 * 2 ^ 63 + 2 * 2" .
    have s': "f64_fin (a' + c') = Fin (f64_round (a' + c'))"
      using fin_round(1) [OF s] by simp
    have "f64_add (f64_fin A) (f64_div (f64_fin B) (Fin 1000000000)) = Fin (f64_round (a' + c'))"
      by (simp add: a'(1) b'(1) c'(1) s')
    then show ?thesis
      by (simp only: f64_of_int_def A_def B_def S_def a'_def b'_def c'_def)
  qed
  have pos: "within_roundings 3 (S D) (of_int D / 1000000000)"
    if D: "0 < D" "D \<le> 2 ^ 63" for D :: int
  proof -
    define sec where "sec = D sdiv 1000000000"
    define nsec where "nsec = D smod 1000000000"
    have sn: "0 \<le> sec" "0 \<le> nsec" "D = sec * 1000000000 + nsec"
      using sdiv_smod_billion(5) [OF D(1)] by (simp_all add: sec_def nsec_def)
    have "\<bar>sec\<bar> \<le> \<bar>D\<bar>" unfolding sec_def by (rule sdiv_smod_billion(1))
    then have "sec \<le> 2 ^ 63" using D sn(1) by linarith
    then have sec64: "sec \<le> 2 ^ 64" by (rule order_trans) simp
    have "\<bar>nsec\<bar> \<le> 1000000000" unfolding nsec_def by (rule sdiv_smod_billion(2))
    then have nsec9: "nsec \<le> 1000000000" by linarith
    then have nsec64: "nsec \<le> 2 ^ 64" by (rule order_trans) simp
    define A :: rat where "A = of_int sec"
    define B :: rat where "B = of_int nsec"
    define a where "a = f64_round A"
    define b where "b = f64_round B"
    have a: "within_roundings 1 a A"
      using of_int_step(2) [OF sn(1) sec64] by (simp add: a_def A_def)
    have b: "within_roundings 1 b B"
      using of_int_step(2) [OF sn(2) nsec64] by (simp add: b_def B_def)
    have "(of_int 0 :: rat) \<le> of_int sec" using sn(1) by (simp only: of_int_le_iff)
    then have A0: "0 \<le> A" by (simp add: A_def)
    have "(of_int 0 :: rat) \<le> of_int nsec" using sn(2) by (simp only: of_int_le_iff)
    then have B0: "0 \<le> B" by (simp add: B_def)
    have B1: "B = 0 \<or> 1 \<le> B"
    proof (cases "nsec = 0")
      case True
      then show ?thesis by (simp add: B_def)
    next
      case False
      with sn(2) have "1 \<le> nsec" by simp
      then have "(of_int 1 :: rat) \<le> of_int nsec" by (simp only: of_int_le_iff)
      then show ?thesis by (simp add: B_def)
    qed
    have "(of_int nsec :: rat) \<le> of_int 1000000000"
      using nsec9 by (simp only: of_int_le_iff)
    then have Bu: "B \<le> 1000000000" by (simp add: B_def)
    define Y where "Y = B / 1000000000"
    have w1: "within_roundings 1 (b / 1000000000) Y"
      using within_div [OF b within_refl [of 1000000000] B0] by (simp add: Y_def)
    have Yr: "Y = 0 \<or> 1 / 2 ^ 200 \<le> Y"
    proof (cases "B = 0")
      case True
      then show ?thesis by (simp add: Y_def)
    next
      case False
      with B1 have "1 \<le> B" by simp
      then have "1 / 1000000000 \<le> B / 1000000000" by (rule divide_right_mono) simp
      moreover have "(1 / 2 ^ 200 :: rat) \<le> 1 / 1000000000" by simp
      ultimately have "1 / 2 ^ 200 \<le> Y" unfolding Y_def by (rule order_trans [rotated])
      then show ?thesis ..
    qed
    have Y0: "0 \<le> Y" using B0 by (simp add: Y_def)
    have "B / 1000000000 \<le> 1000000000 / 1000000000" using Bu by (rule divide_right_mono) simp
    then have Y1: "Y \<le> 1" by (simp add: Y_def)
    then have Yu: "Y \<le> 2 ^ 130" by (rule order_trans) simp
    have k1: "(1 :: nat) \<le> 2 ^ 52" by simp
    define c where "c = f64_round (b / 1000000000)"
    have c: "within_roundings 2 c Y"
      using round_step(2) [OF w1 Yr Yu k1] by (simp add: c_def numeral_2_eq_2)
    have a2: "within_roundings 2 a A" by (rule within_weaken [OF a A0]) simp
    have w2: "within_roundings 2 (a + c) (A + Y)" by (rule within_add [OF a2 c])
    define X :: rat where "X = of_int D / 1000000000"
    have "(of_int D :: rat) = of_int (sec * 1000000000 + nsec)" by (simp only: sn(3) [symmetric])
    then have "(of_int D :: rat) = A * 1000000000 + B" by (simp add: A_def B_def)
    then have X: "A + Y = X" by (simp add: X_def Y_def add_divide_distrib)
    have "1 \<le> D" using D(1) by simp
    then have "(of_int 1 :: rat) \<le> of_int D" by (simp only: of_int_le_iff)
    then have "1 / 1000000000 \<le> (of_int D :: rat) / 1000000000"
      by (intro divide_right_mono) simp_all
    moreover have "(1 / 2 ^ 200 :: rat) \<le> 1 / 1000000000" by simp
    ultimately have "1 / 2 ^ 200 \<le> X" unfolding X_def by (rule order_trans [rotated])
    then have Xr: "X = 0 \<or> 1 / 2 ^ 200 \<le> X" ..
    have "(of_int D :: rat) \<le> of_int (2 ^ 63)" using D(2) by (simp only: of_int_le_iff)
    then have "(of_int D :: rat) / 1000000000 \<le> of_int (2 ^ 63) / 1000000000"
      by (rule divide_right_mono) simp
    then have Xu: "X \<le> 2 ^ 130" unfolding X_def by (rule order_trans) simp
    have k2: "(2 :: nat) \<le> 2 ^ 52" by simp
    have "within_roundings (Suc 2) (f64_round (a + c)) X"
      using round_step(2) [OF w2 [unfolded X] Xr Xu k2] .
    then have "within_roundings 3 (f64_round (a + c)) X" by (simp add: numeral_3_eq_3)
    then show ?thesis
      by (simp only: X_def S_def a_def b_def c_def A_def B_def sec_def nsec_def)
  qed
  have odd: "S (- D) = - S D" for D
  proof -
    define a where "a = f64_round (of_int (D sdiv 1000000000))"
    define c where "c = f64_round (f64_round (of_int (D smod 1000000000)) / 1000000000)"
    have "S (- D) = f64_round (- a + - c)"
      by (simp add: S_def sdiv_smod_billion(3,4) f64_round_minus a_def c_def)
    also have "- a + - c = - (a + c)" by simp
    also have "f64_round (- (a + c)) = - f64_round (a + c)" by (rule f64_round_minus)
    finally show ?thesis by (simp only: S_def a_def c_def)
  qed
  have low_pos: "1 / 2000000000 \<le> S D" if D: "0 < D" "D \<le> 2 ^ 63" for D :: int
  proof -
    define X :: rat where "X = of_int D / 1000000000"
    have w: "within_roundings 3 (S D) X" unfolding X_def by (rule pos [OF D])
    have "1 \<le> D" using D(1) by simp
    then have "(of_int 1 :: rat) \<le> of_int D" by (simp only: of_int_le_iff)
    then have "1 / 1000000000 \<le> (of_int D :: rat) / 1000000000"
      by (intro divide_right_mono) simp_all
    then have X1: "1 / 1000000000 \<le> X" by (simp only: X_def)
    then have X0: "0 \<le> X" by (rule order_trans [rotated]) simp
    have k: "(3 :: nat) \<le> 2 ^ 52" by simp
    have "X \<le> 2 * S D" by (rule within_lower [OF w X0 k])
    with X1 show ?thesis by simp
  qed
  define D where "D = sint d"
  have Dr: "- (2 ^ 63) \<le> D" "D < 2 ^ 63" using sint64_range [of d] by (simp_all add: D_def)
  have D0: "D \<noteq> 0" using assms by (simp add: D_def signed_eq_0_iff)
  have "\<bar>D\<bar> \<le> 2 ^ 63" using Dr by linarith
  from fin [OF this] have v: "Seconds d = Fin (S D)"
    by (simp add: Seconds_def Let_def D_def)
  have low: "1 / 2000000000 \<le> \<bar>S D\<bar>"
  proof (cases "0 < D")
    case True
    with low_pos [of D] Dr show ?thesis by simp
  next
    case False
    with D0 have "0 < - D" by simp
    moreover have "- D \<le> 2 ^ 63" using Dr by simp
    ultimately have "1 / 2000000000 \<le> S (- D)" by (rule low_pos)
    then show ?thesis by (simp add: odd)
  qed
  have "within_roundings 3 (S D) (of_int (sint d) / 1000000000)" if "0 < sint d"
    using pos [of D] that Dr by (simp add: D_def del: of_int_sint)
  with v low show ?thesis by blast
qed

lemma div_1024_fin:
  assumes "\<bar>x\<bar> \<le> B" and "B < 2 ^ 139"
  shows "f64_div (Fin x) (Fin 1024) = Fin (f64_round (x / 1024))"
    and "\<bar>f64_round (x / 1024)\<bar> \<le> 2 * B"
proof -
  have "\<bar>x / 1024\<bar> = \<bar>x\<bar> / 1024" by simp
  also have "\<dots> \<le> \<bar>x\<bar>" by (simp add: divide_le_eq)
  also note assms(1)
  finally have q: "\<bar>x / 1024\<bar> \<le> B" .
  show "f64_div (Fin x) (Fin 1024) = Fin (f64_round (x / 1024))"
    using fin_round(1) [OF q assms(2)] by simp
  show "\<bar>f64_round (x / 1024)\<bar> \<le> 2 * B" by (rule fin_round(2) [OF q assms(2)])
qed

lemma div_1024_within:
  assumes "within_roundings k x X" and "X = 0 \<or> 1 / 2 ^ 100 \<le> X" and "X \<le> 2 ^ 130"
    and "k \<le> 10"
  shows "within_roundings (Suc k) (f64_round (x / 1024)) (X / 1024)"
proof -
  have X0: "0 \<le> X" using assms(2) by (auto intro: order_trans [of _ "1 / 2 ^ 100"])
  have w: "within_roundings k (x / 1024) (X / 1024)"
    using within_div [OF assms(1) within_refl [of 1024] X0] by simp
  have r: "X / 1024 = 0 \<or> 1 / 2 ^ 200 \<le> X / 1024"
  proof (cases "X = 0")
    case True
    then show ?thesis by simp
  next
    case False
    with assms(2) have "1 / 2 ^ 100 \<le> X" by simp
    then have "1 / 2 ^ 100 / 1024 \<le> X / 1024" by (rule divide_right_mono) simp
    moreover have "(1 / 2 ^ 200 :: rat) \<le> 1 / 2 ^ 100 / 1024" by simp
    ultimately have "1 / 2 ^ 200 \<le> X / 1024" by (rule order_trans [rotated])
    then show ?thesis ..
  qed
  have "X / 1024 \<le> X" using X0 by (simp add: divide_le_eq)
  then have u: "X / 1024 \<le> 2 ^ 130" using assms(3) by (rule order_trans)
  have "k \<le> 2 ^ 52" using assms(4) by (rule order_trans) simp
  from round_step(2) [OF w r u this] show ?thesis .
qed

text \<open>
  The transfer rate of the response, \<open>float64(written) / copyDuration.Seconds()\<close>
  divided by 1024 twice: finite for every duration that is not zero; for a count that
  is not negative and a positive duration, bytes by seconds in MB/s up to the roundings
  of the seven operations.
\<close>

lemma transfer_rate_value:
  assumes "(d :: 64 word) \<noteq> 0"
  shows "\<exists>r. MB (f64_div (f64_of_int (sint (n :: 64 word))) (Seconds d)) = Fin r
           \<and> (0 \<le> sint n \<and> 0 < sint d \<longrightarrow>
                within_roundings 7 r
                  (of_int (sint n) / (of_int (sint d) / 1000000000) / 1024 / 1024))"
proof -
  from Seconds_nonzero [OF assms] obtain S where S:
    "Seconds d = Fin S" "1 / 2000000000 \<le> \<bar>S\<bar>"
    "0 < sint d \<longrightarrow> within_roundings 3 S (of_int (sint d) / 1000000000)"
    by blast
  define N where "N = sint n"
  define D where "D = sint d"
  define NN :: rat where "NN = of_int N"
  define DD :: rat where "DD = of_int D"
  have Nr: "- (2 ^ 63) \<le> N" "N < 2 ^ 63" using sint64_range [of n] by (simp_all add: N_def)
  have Dr: "D < 2 ^ 63" using sint64_range(2) [of d] by (simp add: D_def)
  have "\<bar>N\<bar> \<le> 2 ^ 63" using Nr by linarith
  then have "(of_int \<bar>N\<bar> :: rat) \<le> of_int (2 ^ 63)" by (simp only: of_int_le_iff)
  then have NN: "\<bar>NN\<bar> \<le> 2 ^ 63" by (simp add: NN_def)
  define W where "W = f64_round NN"
  have W: "f64_of_int N = Fin W" "\<bar>W\<bar> \<le> 2 * 2 ^ 63"
    using fin_round [OF NN] by (simp_all add: W_def f64_of_int_def NN_def)
  have S0: "S \<noteq> 0" using S(2) by auto
  have Spos: "0 < \<bar>S\<bar>" using S0 by simp
  have "\<bar>W / S\<bar> = \<bar>W\<bar> / \<bar>S\<bar>" by simp
  also have "\<dots> \<le> 2 * 2 ^ 63 / \<bar>S\<bar>" using W(2) by (rule divide_right_mono) simp
  also have "\<dots> \<le> 2 * 2 ^ 63 / (1 / 2000000000)"
    using S(2) by (intro divide_left_mono mult_pos_pos) simp_all
  finally have q: "\<bar>W / S\<bar> \<le> 2 * 2 ^ 63 * 2000000000" by simp
  define R where "R = f64_round (W / S)"
  have R: "f64_fin (W / S) = Fin R" "\<bar>R\<bar> \<le> 2 * (2 * 2 ^ 63 * 2000000000)"
    using fin_round [OF q] by (simp_all add: R_def)
  have rate: "f64_div (f64_of_int N) (Seconds d) = Fin R"
    using S0 by (simp add: W(1) S(1) R(1))
  define R1 where "R1 = f64_round (R / 1024)"
  have R1: "f64_div (Fin R) (Fin 1024) = Fin R1" "\<bar>R1\<bar> \<le> 2 * (2 * (2 * 2 ^ 63 * 2000000000))"
    using div_1024_fin [OF R(2)] by (simp_all add: R1_def)
  define R2 where "R2 = f64_round (R1 / 1024)"
  have R2: "f64_div (Fin R1) (Fin 1024) = Fin R2"
    using div_1024_fin(1) [OF R1(2)] by (simp add: R2_def)
  have mb: "MB (f64_div (f64_of_int N) (Seconds d)) = Fin R2"
    by (simp only: MB_def rate R1(1) R2)
  have val: "within_roundings 7 R2 (NN / (DD / 1000000000) / 1024 / 1024)"
    if pos: "0 \<le> N" "0 < D"
  proof -
    have N64: "N \<le> 2 ^ 64" using Nr(2) by (rule order_trans [OF less_imp_le]) simp
    have w1: "within_roundings 1 W NN"
      using of_int_step(2) [OF pos(1) N64] by (simp add: W_def NN_def)
    have s3: "within_roundings 3 S (DD / 1000000000)"
      using S(3) pos(2) by (simp add: D_def DD_def del: of_int_sint)
    have "(of_int 0 :: rat) \<le> of_int N" using pos(1) by (simp only: of_int_le_iff)
    then have N0: "0 \<le> NN" by (simp add: NN_def)
    have N1: "NN = 0 \<or> 1 \<le> NN"
    proof (cases "N = 0")
      case True
      then show ?thesis by (simp add: NN_def)
    next
      case False
      with pos(1) have "1 \<le> N" by simp
      then have "(of_int 1 :: rat) \<le> of_int N" by (simp only: of_int_le_iff)
      then show ?thesis by (simp add: NN_def)
    qed
    have "(of_int N :: rat) \<le> of_int (2 ^ 63)" using Nr(2) by (simp only: of_int_le_iff)
    then have N2: "NN \<le> 2 ^ 63" by (simp add: NN_def)
    have "1 \<le> D" using pos(2) by simp
    then have "(of_int 1 :: rat) \<le> of_int D" by (simp only: of_int_le_iff)
    then have D1: "1 \<le> DD" by (simp add: DD_def)
    have "(of_int D :: rat) \<le> of_int (2 ^ 63)" using Dr by (simp only: of_int_le_iff)
    then have D2: "DD \<le> 2 ^ 63" by (simp add: DD_def)
    have Dpos: "0 < DD / 1000000000" using D1 by simp
    define Q where "Q = NN / DD"
    note qr = quotient_range [OF N0 N1 N2 D1 D2, folded Q_def]
    define X where "X = Q * 1000000000"
    have X: "NN / (DD / 1000000000) = X" by (simp add: X_def Q_def)
    have "within_roundings (1 + 3) (W / S) (NN / (DD / 1000000000))"
      by (rule within_div [OF w1 s3 N0 Dpos])
    then have "within_roundings (1 + 3) (W / S) X" by (simp only: X)
    then have w4: "within_roundings 4 (W / S) X" by simp
    have Xr: "X = 0 \<or> 1 / 2 ^ 100 \<le> X"
    proof (cases "Q = 0")
      case True
      then show ?thesis by (simp add: X_def)
    next
      case False
      with qr(1) have "1 / 2 ^ 63 \<le> Q" by simp
      then have "1 / 2 ^ 63 * 1000000000 \<le> Q * 1000000000" by simp
      moreover have "(1 / 2 ^ 100 :: rat) \<le> 1 / 2 ^ 63 * 1000000000" by simp
      ultimately have "1 / 2 ^ 100 \<le> X" unfolding X_def by (rule order_trans [rotated])
      then show ?thesis ..
    qed
    have X0: "0 \<le> X" using qr(3) by (simp add: X_def)
    have "Q * 1000000000 \<le> 2 ^ 63 * 1000000000" using qr(2) by simp
    then have Xu: "X \<le> 2 ^ 100" unfolding X_def by (rule order_trans) simp
    then have Xu': "X \<le> 2 ^ 130" by (rule order_trans) simp
    have Xr': "X = 0 \<or> 1 / 2 ^ 200 \<le> X"
    proof -
      have "(1 / 2 ^ 200 :: rat) \<le> 1 / 2 ^ 100" by simp
      then show ?thesis using Xr by auto
    qed
    have k4: "(4 :: nat) \<le> 2 ^ 52" by simp
    have "within_roundings (Suc 4) R X"
      using round_step(2) [OF w4 Xr' Xu' k4] by (simp only: R_def)
    then have w5: "within_roundings 5 R X" by (simp add: eval_nat_numeral)
    have k5: "(5 :: nat) \<le> 10" by simp
    have "within_roundings (Suc 5) R1 (X / 1024)"
      using div_1024_within [OF w5 Xr Xu' k5] by (simp only: R1_def)
    then have w6: "within_roundings 6 R1 (X / 1024)" by (simp add: eval_nat_numeral)
    have Xr1: "X / 1024 = 0 \<or> 1 / 2 ^ 100 \<le> X / 1024"
    proof (cases "Q = 0")
      case True
      then show ?thesis by (simp add: X_def)
    next
      case False
      with qr(1) have "1 / 2 ^ 63 \<le> Q" by simp
      then have "1 / 2 ^ 63 * 1000000000 / 1024 \<le> Q * 1000000000 / 1024" by simp
      moreover have "(1 / 2 ^ 100 :: rat) \<le> 1 / 2 ^ 63 * 1000000000 / 1024" by simp
      ultimately have "1 / 2 ^ 100 \<le> X / 1024" unfolding X_def by (rule order_trans [rotated])
      then show ?thesis ..
    qed
    have "X / 1024 \<le> X" using X0 by (simp add: divide_le_eq)
    then have Xu1: "X / 1024 \<le> 2 ^ 130" using Xu' by (rule order_trans)
    have k6: "(6 :: nat) \<le> 10" by simp
    have "within_roundings (Suc 6) R2 (X / 1024 / 1024)"
      using div_1024_within [OF w6 Xr1 Xu1 k6] by (simp only: R2_def)
    then have "within_roundings 7 R2 (X / 1024 / 1024)" by (simp add: eval_nat_numeral)
    then show ?thesis by (simp only: X)
  qed
  have "0 \<le> sint n \<and> 0 < sint d \<longrightarrow>
          within_roundings 7 R2 (of_int (sint n) / (of_int (sint d) / 1000000000) / 1024 / 1024)"
    using val by (simp add: N_def D_def NN_def DD_def del: of_int_sint)
  moreover have "MB (f64_div (f64_of_int (sint n)) (Seconds d)) = Fin R2"
    using mb by (simp only: N_def)
  ultimately show ?thesis by blast
qed

text \<open>
  C2, as the code has it: the division has no guard; for an upload whose copy completed
  in a duration that is not zero, the transfer rate of the response is a finite
  \<open>float64\<close>, neither an infinity nor \<open>NaN\<close>, under every schedule of the benchmark
  goroutine; for a positive duration it is bytes by seconds, in MB/s, up to the
  roundings of the seven \<open>float64\<close> operations that compute it.
\<close>

theorem transfer_rate_finite_for_nonzero_duration:
  assumes "outcome_of w rq s = Completed written" and "env_copyDuration w \<noteq> 0"
  shows "\<exists>b r. responses (snd (upload_request w k rq s)) = [(200, SuccessBody b)]
             \<and> b_transfer_rate b = Fin r
             \<and> is_finite (b_transfer_rate b)
             \<and> (0 \<le> sint written \<and> 0 < sint (env_copyDuration w) \<longrightarrow>
                  within_roundings 7 r
                    (of_int (sint written) / (of_int (sint (env_copyDuration w)) / 1000000000)
                     / 1024 / 1024))"
proof -
  from handler_completed [OF assms(1)] obtain b where b:
    "responses (snd (upload_handler w rq s)) = [(200, SuccessBody b)]"
    "b_transfer_rate b
       = MB (f64_div (f64_of_int (sint written)) (Seconds (env_copyDuration w)))"
    by force
  have resp: "responses (snd (upload_request w k rq s)) = [(200, SuccessBody b)]"
    using upload_request_trace [of Open w k rq s] b(1) by simp
  from transfer_rate_value [OF assms(2), of written] obtain r where r:
    "MB (f64_div (f64_of_int (sint written)) (Seconds (env_copyDuration w))) = Fin r"
    "0 \<le> sint written \<and> 0 < sint (env_copyDuration w) \<longrightarrow>
       within_roundings 7 r
         (of_int (sint written) / (of_int (sint (env_copyDuration w)) / 1000000000)
          / 1024 / 1024)"
    by blast
  have "b_transfer_rate b = Fin r" using b(2) r(1) by simp
  then show ?thesis
    using resp r(2) by (intro exI [of _ b] exI [of _ r]) simp
qed

lemma sdiv_values:
  "(2000000 :: int) sdiv 1000000000 = 0" "(2000000 :: int) smod 1000000000 = 2000000"
  "(0 :: int) sdiv 1000000000 = 0" "(0 :: int) smod 1000000000 = 0"
  by (simp_all add: signed_divide_int_def signed_modulo_int_def)

lemma round_values_rate:
  "f64_round 0 = 0" "f64_round 2000000 = 2000000"
  "f64_round (1 / 500) = 1152921504606847 / 576460752303423488"
  "f64_round (1152921504606847 / 576460752303423488) = 1152921504606847 / 576460752303423488"
  "f64_round (1729382256910270464 / 1152921504606847) = 1500"
  "f64_round (375 / 256) = 375 / 256" "f64_round (375 / 262144) = 375 / 262144"
  by code_simp+

theorem transfer_rate_finite_for_nonzero_duration_witness:
  "outcome_of demo_env demo_request demo_fs = Completed 3
   \<and> env_copyDuration demo_env \<noteq> 0
   \<and> 0 \<le> sint (3 :: int64) \<and> 0 < sint (env_copyDuration demo_env)
   \<and> (\<exists>b r. responses (snd (upload_request demo_env 0 demo_request demo_fs))
               = [(200, SuccessBody b)]
           \<and> b_transfer_rate b = Fin r \<and> is_finite (b_transfer_rate b)
           \<and> within_roundings 7 r (3 / (2000000 / 1000000000) / 1024 / 1024))
   \<and> map (\<lambda>(st, b). case b of SuccessBody x \<Rightarrow> Some (b_transfer_rate x) | ErrorBody e \<Rightarrow> None)
       (responses (snd (upload_request demo_env 0 demo_request demo_fs)))
     = [Some (Fin (375 / 262144))]"
proof -
  have a: "outcome_of demo_env demo_request demo_fs = Completed 3"
    by (simp add: outcome_of_def demo_env_def demo_request_def demo_fs_def io_Copy_def
          copy_write_def fs_write_def os_Create_def os_MkdirAll_def contents_def file_at_def)
  have d: "env_copyDuration demo_env = 2000000" by (simp add: demo_env_def)
  then have d0: "env_copyDuration demo_env \<noteq> 0" by simp
  have v: "map (\<lambda>(st, b). case b of SuccessBody x \<Rightarrow> Some (b_transfer_rate x) | ErrorBody e \<Rightarrow> None)
       (responses (snd (upload_request demo_env 0 demo_request demo_fs)))
     = [Some (Fin (375 / 262144))]"
    by (simp add: upload_request_def upload_handler_def append_benchmark_def
          demo_env_def demo_request_def demo_fs_def
          io_Copy_def copy_write_def fs_write_def os_Create_def os_MkdirAll_def contents_def
          file_at_def Seconds_def MB_def f64_of_int_def f64_fin_small sdiv_values
          round_values round_values_rate Let_def)
  from transfer_rate_finite_for_nonzero_duration [OF a d0, of 0]
  have "\<exists>b r. responses (snd (upload_request demo_env 0 demo_request demo_fs))
               = [(200, SuccessBody b)]
           \<and> b_transfer_rate b = Fin r \<and> is_finite (b_transfer_rate b)
           \<and> within_roundings 7 r (3 / (2000000 / 1000000000) / 1024 / 1024)"
    by (auto simp: d)
  with a d0 v show ?thesis by (simp add: d)
qed

text \<open>
  C2 as stated fails at a copy duration of zero: the empty upload to \<open>/tmp/empty.dat\<close>
  answers 200 with size 0 and a transfer rate of \<open>NaN\<close>, and the three-byte upload with
  \<open>+Inf\<close>.
\<close>

theorem transfer_rate_zero_duration_counterexample:
  "env_copyDuration instant_env = 0
   \<and> map (\<lambda>(st, b). (st, case b of SuccessBody x \<Rightarrow> Some (sint (b_size x), b_transfer_rate x)
                               | ErrorBody e \<Rightarrow> None))
       (responses (snd (upload_request instant_env 0 empty_request demo_fs)))
     = [(200, Some (0, NaN))]
   \<and> map (\<lambda>(st, b). (st, case b of SuccessBody x \<Rightarrow> Some (sint (b_size x), b_transfer_rate x)
                               | ErrorBody e \<Rightarrow> None))
       (responses (snd (upload_request instant_env 0 demo_request demo_fs)))
     = [(200, Some (3, PInf))]"
  by (simp add: upload_request_def upload_handler_def append_benchmark_def
        instant_env_def empty_request_def demo_env_def demo_request_def demo_fs_def
        io_Copy_def copy_write_def fs_write_def os_Create_def os_MkdirAll_def contents_def
        file_at_def Seconds_def MB_def f64_of_int_def f64_fin_small sdiv_values
        round_values round_values_rate Let_def)

section \<open>The memory used\<close>

lemma round_values_memory:
  "f64_round 18446744073708551616 = 18446744073708552192"
  "f64_round 18014398509481008 = 18014398509481008"
  "f64_round (1125899906842563 / 64) = 1125899906842563 / 64"
  "f64_round (3 / 4) = 3 / 4" "f64_round 75 = 75"
  by code_simp+

text \<open>
  C3 does not hold of the code. The monitor has sampled a peak of 1500000 bytes (on 8
  processors, 6 goroutines) and would return it, 500000 bytes above the 1000000 bytes
  read at the start of the request; the handler reads \<open>maxMem\<close> right after
  \<open>close(perfDone)\<close>, before the goroutine has assigned it, and so reads 0. The
  \<open>uint64\<close> subtraction \<open>maxMem - initialMemory\<close> then gives \<open>2^64 - 1000000\<close>: the
  benchmark result carries 18446744073708551616 bytes and the response about
  17592186044415 MB, neither the difference of the peak and the first reading nor a
  negative number.
\<close>

theorem memory_used_wraps_below_initial:
  "handler_reads 8 [TickA \<lparr>Alloc = 1500000, NumGoroutine = 6\<rparr>, CloseA, ReadMaxMem, ReadAvgCPU]
     = Some (env_maxMem unsampled_env, env_avgCPU unsampled_env)
   \<and> env_maxMem unsampled_env = 0
   \<and> env_initialMemory unsampled_env = 1000000
   \<and> monitorPerformance 8 [Tick \<lparr>Alloc = 1500000, NumGoroutine = 6\<rparr>, Done]
       = Some (1500000, Fin 75)
   \<and> uint (env_maxMem unsampled_env) - uint (env_initialMemory unsampled_env) = - 1000000
   \<and> map (\<lambda>r. uint (MemoryUsage r))
       (dispatched (snd (upload_request unsampled_env 0 demo_request demo_fs)))
     = [18446744073708551616]
   \<and> map (\<lambda>(st, b). (st, case b of SuccessBody x \<Rightarrow> Some (b_memory_used_mb x)
                               | ErrorBody e \<Rightarrow> None))
       (responses (snd (upload_request unsampled_env 0 demo_request demo_fs)))
     = [(200, Some (Fin (1125899906842563 / 64)))]"
proof -
  have a: "handler_reads 8 [TickA \<lparr>Alloc = 1500000, NumGoroutine = 6\<rparr>, CloseA, ReadMaxMem,
             ReadAvgCPU]
           = Some (env_maxMem unsampled_env, env_avgCPU unsampled_env)"
    by (simp add: handler_reads_def conf_init_def mon_init_def unsampled_env_def demo_env_def)
  have b: "monitorPerformance 8 [Tick \<lparr>Alloc = 1500000, NumGoroutine = 6\<rparr>, Done]
       = Some (1500000, Fin 75)"
    by (simp add: monitorPerformance_def mon_init_def on_tick_def on_done_def cpuEstimate_def
          f64_of_int_def f64_fin_small round_values round_values_memory word_sless_alt)
  have c: "env_maxMem unsampled_env = 0" "env_initialMemory unsampled_env = 1000000"
    by (simp_all add: unsampled_env_def demo_env_def)
  have d: "map (\<lambda>r. uint (MemoryUsage r))
       (dispatched (snd (upload_request unsampled_env 0 demo_request demo_fs)))
     = [18446744073708551616]"
    by (simp add: upload_request_def upload_handler_def append_benchmark_def
          unsampled_env_def demo_env_def demo_request_def demo_fs_def
          io_Copy_def copy_write_def fs_write_def os_Create_def os_MkdirAll_def contents_def
          file_at_def Let_def)
  have e: "map (\<lambda>(st, b). (st, case b of SuccessBody x \<Rightarrow> Some (b_memory_used_mb x)
                               | ErrorBody e \<Rightarrow> None))
       (responses (snd (upload_request unsampled_env 0 demo_request demo_fs)))
     = [(200, Some (Fin (1125899906842563 / 64)))]"
    by (simp add: upload_request_def upload_handler_def append_benchmark_def
          unsampled_env_def demo_env_def demo_request_def demo_fs_def
          io_Copy_def copy_write_def fs_write_def os_Create_def os_MkdirAll_def contents_def
          file_at_def MB_def f64_of_int_def f64_fin_small round_values_memory Let_def)
  show ?thesis using a b d e by (simp add: c)
qed

section \<open>The reads of the monitor's results\<close>

text \<open>
  C4 does not hold of the code: nothing makes the handler wait for the monitor
  goroutine between \<open>close(perfDone)\<close> and its reads of \<open>maxMem\<close> and \<open>avgCPU\<close>. In
  the schedule below the monitor has sampled 4096 bytes and 3 goroutines on 8
  processors; the handler closes the channel and reads both variables before the
  goroutine has received the close, so it reads 0 and 0, and the goroutine assigns 4096
  and 37.5 afterwards. After the close and the monitor's return, the handler's read of
  \<open>maxMem\<close> and the goroutine's write to it are both enabled: the two accesses are not
  ordered.
\<close>

theorem handler_reads_before_monitor_assigns:
  "run 8 [TickA \<lparr>Alloc = 4096, NumGoroutine = 3\<rparr>, CloseA, ReadMaxMem, ReadAvgCPU,
          StopA, AssignMaxMem, AssignAvgCPU] conf_init
     = Some \<lparr>c_handler = H_read_avgCPU 0 (Fin 0), c_monitor = M_exited, c_perfDone = Closed,
             c_maxMem = 4096, c_avgCPU = Fin (75 / 2)\<rparr>
   \<and> map_option (\<lambda>k. (step 8 ReadMaxMem k \<noteq> None, step 8 AssignMaxMem k \<noteq> None))
        (run 8 [TickA \<lparr>Alloc = 4096, NumGoroutine = 3\<rparr>, CloseA, StopA] conf_init)
     = Some (True, True)
   \<and> (\<exists>sch k. run 8 sch conf_init = Some k \<and> handler_has_read k \<and> \<not> monitor_has_assigned k)"
proof -
  have a: "run 8 [TickA \<lparr>Alloc = 4096, NumGoroutine = 3\<rparr>, CloseA, ReadMaxMem, ReadAvgCPU,
          StopA, AssignMaxMem, AssignAvgCPU] conf_init
     = Some \<lparr>c_handler = H_read_avgCPU 0 (Fin 0), c_monitor = M_exited, c_perfDone = Closed,
             c_maxMem = 4096, c_avgCPU = Fin (75 / 2)\<rparr>"
    by (simp add: conf_init_def mon_init_def on_tick_def on_done_def cpuEstimate_def
          f64_of_int_def f64_fin_small round_values word_sless_alt)
  have b: "map_option (\<lambda>k. (step 8 ReadMaxMem k \<noteq> None, step 8 AssignMaxMem k \<noteq> None))
        (run 8 [TickA \<lparr>Alloc = 4096, NumGoroutine = 3\<rparr>, CloseA, StopA] conf_init)
     = Some (True, True)"
    by (simp add: conf_init_def mon_init_def on_tick_def on_done_def cpuEstimate_def
          f64_of_int_def f64_fin_small round_values word_sless_alt)
  have c: "run 8 [CloseA, ReadMaxMem] conf_init
           = Some \<lparr>c_handler = H_read_maxMem 0, c_monitor = M_running mon_init,
                   c_perfDone = Closed, c_maxMem = 0, c_avgCPU = Fin 0\<rparr>"
    by (simp add: conf_init_def)
  have "handler_has_read \<lparr>c_handler = H_read_maxMem 0, c_monitor = M_running mon_init,
                   c_perfDone = Closed, c_maxMem = 0, c_avgCPU = Fin 0\<rparr>
        \<and> \<not> monitor_has_assigned \<lparr>c_handler = H_read_maxMem 0, c_monitor = M_running mon_init,
                   c_perfDone = Closed, c_maxMem = 0, c_avgCPU = Fin 0\<rparr>"
    by simp
  with c have "\<exists>sch k. run 8 sch conf_init = Some k \<and> handler_has_read k
                 \<and> \<not> monitor_has_assigned k"
    by blast
  with a b show ?thesis by blast
qed

end
